theory Spec2Isabelle
  imports Complex_Main "HOL-Library.Char_ord" "HOL-Library.List_Lexorder"
    "HOL-Library.AList" "HOL-Library.Sublist"
begin

section \<open>The benchmark plotting script \<^verbatim>\<open>benchmarking/plot.py\<close>\<close>

text \<open>
  The script is one linear pass: it globs \<^verbatim>\<open>benchmarking/data/*.json\<close>, sorts the
  paths, and for every path derives a source name, skips ignored names, loads the file
  and draws one line and one scatter overlay per gate that the file has, on the
  subplot of that gate. Strings are byte lists; ordering bytes lexicographically is
  the order Python gives to the code points they encode.
\<close>

subsection \<open>String operations of the script\<close>

text \<open>\<^verbatim>\<open>s.split(sep)\<close> for a one-character separator: never an empty list.\<close>

fun py_split :: "char \<Rightarrow> string \<Rightarrow> string list" where
  "py_split sep [] = [[]]"
| "py_split sep (c # cs) =
     (if c = sep then [] # py_split sep cs
      else (case py_split sep cs of
              [] \<Rightarrow> [[c]]
            | w # ws \<Rightarrow> (c # w) # ws))"

text \<open>
  \<^verbatim>\<open>s.replace(old, new)\<close>: scan from the left, replace the leftmost occurrence,
  continue behind it. An empty \<open>old\<close> matches between all characters.
\<close>

function (sequential) replace_scan :: "string \<Rightarrow> string \<Rightarrow> string \<Rightarrow> string" where
  "replace_scan old new [] = []"
| "replace_scan old new (c # cs) =
     (if old \<noteq> [] \<and> prefix old (c # cs)
      then new @ replace_scan old new (drop (length old) (c # cs))
      else c # replace_scan old new cs)"
  by pat_completeness auto
termination
  by (relation "measure (\<lambda>(old, new, s). length s)") auto

definition py_replace :: "string \<Rightarrow> string \<Rightarrow> string \<Rightarrow> string" where
  "py_replace old new s =
     (if old = [] then new @ concat (map (\<lambda>c. c # new) s)
      else replace_scan old new s)"

text \<open>Line 40: \<^verbatim>\<open>fName=fPath.split("/")[-1].replace(".json","")\<close>.\<close>

definition fName :: "string \<Rightarrow> string" where
  "fName fPath = py_replace ''.json'' '''' (last (py_split (CHR ''/'') fPath))"

subsection \<open>File discovery\<close>

text \<open>
  \<^verbatim>\<open>fnmatch\<close> for patterns built from literal characters, \<open>*\<close> and \<open>?\<close> (the
  script's pattern has no bracket class).
\<close>

fun fnmatch :: "string \<Rightarrow> string \<Rightarrow> bool" where
  "fnmatch [] s = (s = [])"
| "fnmatch (p # ps) [] = (p = CHR ''*'' \<and> fnmatch ps [])"
| "fnmatch (p # ps) (c # cs) =
     (if p = CHR ''*'' then fnmatch ps (c # cs) \<or> fnmatch (p # ps) cs
      else (p = CHR ''?'' \<or> p = c) \<and> fnmatch ps cs)"

definition path :: string where
  "path = ''benchmarking/data''"

definition is_hidden :: "string \<Rightarrow> bool" where
  "is_hidden name = (case name of [] \<Rightarrow> False | c # _ \<Rightarrow> c = CHR ''.'')"

text \<open>
  Line 7: \<^verbatim>\<open>glob.glob(path+'/*.json')\<close> over the names the directory holds (none when
  the directory is missing). A pattern that does not begin with a dot never matches
  a name that does; matches come back joined to the directory.
\<close>

definition glob_files :: "string list \<Rightarrow> string list" where
  "glob_files names =
     map (\<lambda>n. path @ ''/'' @ n)
       (filter (\<lambda>n. \<not> is_hidden n \<and> fnmatch ''*.json'' n) names)"

subsection \<open>Parsed JSON, errors and the file system\<close>

text \<open>
  What \<^verbatim>\<open>json.load\<close> returns: Python values, with a \<^verbatim>\<open>dict\<close> as an association
  list in insertion order. Numbers are only handed on to the plotting library.
\<close>

datatype json =
    JNull
  | JBool bool
  | JInt int
  | JFloat real
  | JStr string
  | JArr "json list"
  | JObj "(string \<times> json) list"

text \<open>The exceptions the script can meet; none is caught.\<close>

datatype error =
  OSError | UnicodeDecodeError | JSONDecodeError | AttributeError | KeyError | TypeError | ValueError

text \<open>
  What \<^verbatim>\<open>open(fPath,"r")\<close> followed by \<^verbatim>\<open>json.load(f)\<close> meets at a path: a file
  that cannot be opened, bytes that are not text in the encoding of \<^verbatim>\<open>open\<close>, text
  that is not JSON, or a document.
\<close>

datatype disk_file = Unreadable | Undecodable | Malformed | Document json

text \<open>
  Lines 49 and 50: \<^verbatim>\<open>open\<close> raises for a file it cannot open, \<^verbatim>\<open>json.load\<close> reads
  the whole file as text and parses it. A document of any shape is returned as it is.
\<close>

definition json_load :: "disk_file \<Rightarrow> error + json" where
  "json_load f =
     (case f of
        Unreadable \<Rightarrow> Inl OSError
      | Undecodable \<Rightarrow> Inl UnicodeDecodeError
      | Malformed \<Rightarrow> Inl JSONDecodeError
      | Document d \<Rightarrow> Inr d)"

text \<open>
  The surroundings of one run: the names in the data directory in the order the
  operating system lists them, the files by path, and the colour that the plotting
  library's default cycle gives at each position.
\<close>

record world =
  names :: "string list"
  files :: "string \<Rightarrow> disk_file"
  prop_cycle :: "nat \<Rightarrow> string"

text \<open>
  Lines 22 to 32: the three tables a user of the script edits. They are parameters
  of the run; \<open>script_config\<close> is what the script holds.
\<close>

record config =
  labels0 :: "(string \<times> string) list"
  ignoreList :: "string list"
  colors0 :: "(string \<times> string) list"

definition script_config :: config where
  "script_config =
     \<lparr>labels0 = [(''dataYao_target=1'', ''Yao'')],
      ignoreList = [],
      colors0 = [(''dataYao_target=1'', ''#C71585'')]\<rparr>"

definition gatesList :: "string list" where
  "gatesList = [''X'', ''H'', ''T'', ''CNOT'', ''Y'']"

definition markerSize :: nat where
  "markerSize = 20"

definition linewidth :: real where
  "linewidth = 1"

subsection \<open>The figure\<close>

text \<open>
  A line and a scatter overlay as the plotting library holds them. \<open>line_src\<close> and
  \<open>sc_src\<close> are bookkeeping of the model: the source name whose data the artist shows.
\<close>

record line2d =
  line_x :: json
  line_y :: json
  line_label :: string
  line_width :: real
  line_color :: string
  line_src :: string

record path_collection =
  sc_x :: json
  sc_y :: json
  sc_color :: string
  sc_s :: nat
  sc_src :: string

text \<open>
  One subplot. Every subplot has a colour cycle of its own; \<open>cycle_pos\<close> counts the
  colours it has handed out. \<open>legend\<close> is the list of labels shown, once requested.
\<close>

record axes =
  lines :: "line2d list"
  collections :: "path_collection list"
  cycle_pos :: nat
  yscale :: string
  legend :: "string list option"
  title :: string
  grid_on :: bool
  xlabel :: string
  ylabel :: string

definition new_axes :: axes where
  "new_axes =
     \<lparr>lines = [], collections = [], cycle_pos = 0, yscale = ''linear'', legend = None,
      title = [], grid_on = False, xlabel = [], ylabel = []\<rparr>"

text \<open>
  The script's state: its three dictionaries, the six subplots of
  \<^verbatim>\<open>plt.subplots(2, 3)\<close> in the order of \<^verbatim>\<open>axs.ravel()\<close>, what \<^verbatim>\<open>print\<close> wrote,
  the paths opened so far, and whether \<^verbatim>\<open>plt.show()\<close> was reached.
\<close>

record state =
  labelsDict :: "(string \<times> string) list"
  colorsDict :: "(string \<times> string) list"
  dataDict :: "(string \<times> json) list"
  axs :: "axes list"
  stdout :: "string list"
  opened :: "string list"
  shown :: bool

definition init_state :: "config \<Rightarrow> state" where
  "init_state cfg =
     \<lparr>labelsDict = labels0 cfg, colorsDict = colors0 cfg, dataDict = [],
      axs = replicate 6 new_axes, stdout = [], opened = [], shown = False\<rparr>"

subsection \<open>Dictionary and JSON access\<close>

definition bind_err :: "error + 'a \<Rightarrow> ('a \<Rightarrow> error + 'b) \<Rightarrow> error + 'b" where
  "bind_err r f = (case r of Inl e \<Rightarrow> Inl e | Inr x \<Rightarrow> f x)"

text \<open>\<^verbatim>\<open>k in d\<close> and \<^verbatim>\<open>d[k]\<close> on a dictionary of the script.\<close>

definition py_in :: "string \<Rightarrow> (string \<times> 'v) list \<Rightarrow> bool" where
  "py_in k d = (k \<in> set (map fst d))"

definition getitem :: "(string \<times> 'v) list \<Rightarrow> string \<Rightarrow> error + 'v" where
  "getitem d k = (case map_of d k of None \<Rightarrow> Inl KeyError | Some v \<Rightarrow> Inr v)"

text \<open>\<^verbatim>\<open>v.keys()\<close> and \<^verbatim>\<open>v[k]\<close> with a string \<open>k\<close> on a parsed value.\<close>

definition json_keys :: "json \<Rightarrow> error + string list" where
  "json_keys v = (case v of JObj kvs \<Rightarrow> Inr (map fst kvs) | _ \<Rightarrow> Inl AttributeError)"

definition subscript :: "json \<Rightarrow> string \<Rightarrow> error + json" where
  "subscript v k = (case v of JObj kvs \<Rightarrow> getitem kvs k | _ \<Rightarrow> Inl TypeError)"

text \<open>
  The two arguments every drawing call evaluates first:
  \<^verbatim>\<open>dataDict[fName][gate]["nqubits"]\<close>, then \<^verbatim>\<open>dataDict[fName][gate]["times"]\<close>.
\<close>

definition gate_data :: "json \<Rightarrow> string \<Rightarrow> error + (json \<times> json)" where
  "gate_data d gate =
     bind_err (subscript d gate) (\<lambda>g.
     bind_err (subscript g ''nqubits'') (\<lambda>x.
     bind_err (subscript g ''times'') (\<lambda>y.
     Inr (x, y))))"

subsection \<open>The plotting calls\<close>

text \<open>
  The data the library draws as one series: two flat sequences of numbers of one
  length. Anything else counts as rejected with \<^verbatim>\<open>ValueError\<close>.
\<close>

definition is_number :: "json \<Rightarrow> bool" where
  "is_number v = (case v of JInt _ \<Rightarrow> True | JFloat _ \<Rightarrow> True | _ \<Rightarrow> False)"

definition plottable :: "json \<Rightarrow> json \<Rightarrow> bool" where
  "plottable x y =
     (case x of
        JArr xs \<Rightarrow>
          (case y of
             JArr ys \<Rightarrow> list_all is_number xs \<and> list_all is_number ys \<and> length xs = length ys
           | _ \<Rightarrow> False)
      | _ \<Rightarrow> False)"

text \<open>
  \<^verbatim>\<open>ax.plot(x, y, label=.., linewidth=.., [color=..])\<close>. Without a colour the subplot's
  cycle gives the next one and advances; with a colour the cycle stays. The new line
  is returned, as \<^verbatim>\<open>line[0]\<close>.
\<close>

definition ax_plot ::
  "world \<Rightarrow> json \<Rightarrow> json \<Rightarrow> string \<Rightarrow> string option \<Rightarrow> string \<Rightarrow> axes \<Rightarrow> error + (line2d \<times> axes)"
where
  "ax_plot w x y lbl color src ax =
     (if \<not> plottable x y then Inl ValueError
      else (case color of
              None \<Rightarrow>
                (let l = \<lparr>line_x = x, line_y = y, line_label = lbl, line_width = linewidth,
                          line_color = prop_cycle w (cycle_pos ax), line_src = src\<rparr>
                 in Inr (l, ax\<lparr>lines := lines ax @ [l], cycle_pos := Suc (cycle_pos ax)\<rparr>))
            | Some c \<Rightarrow>
                (let l = \<lparr>line_x = x, line_y = y, line_label = lbl, line_width = linewidth,
                          line_color = c, line_src = src\<rparr>
                 in Inr (l, ax\<lparr>lines := lines ax @ [l]\<rparr>))))"

text \<open>\<^verbatim>\<open>ax.scatter(x, y, color=.., s=..)\<close>: no label, so no legend entry.\<close>

definition ax_scatter :: "json \<Rightarrow> json \<Rightarrow> string \<Rightarrow> nat \<Rightarrow> string \<Rightarrow> axes \<Rightarrow> error + axes" where
  "ax_scatter x y c s src ax =
     (if \<not> plottable x y then Inl ValueError
      else Inr (ax\<lparr>collections := collections ax @
                  [\<lparr>sc_x = x, sc_y = y, sc_color = c, sc_s = s, sc_src = src\<rparr>]\<rparr>))"

text \<open>
  Lines 82 to 89, in order: log scale, legend of the labelled lines present at that
  moment, title, grid (the argument \<^verbatim>\<open>"minor"\<close> is a true value for
  \<^verbatim>\<open>visible\<close>), axis labels.
\<close>

definition decorate :: "string \<Rightarrow> axes \<Rightarrow> axes" where
  "decorate gate ax =
     ax\<lparr>yscale := ''log'',
        legend := Some (map line_label (lines ax)),
        title := gate @ '' gate'',
        grid_on := True,
        xlabel := ''n qubits'',
        ylabel := ''time (ns)''\<rparr>"

subsection \<open>The loops\<close>

text \<open>Lines 55 to 89: the body of the inner loop for the subplot at index \<open>i\<close>.\<close>

definition draw_gate :: "world \<Rightarrow> string \<Rightarrow> nat \<times> string \<Rightarrow> state \<Rightarrow> error + state" where
  "draw_gate w fn ig st =
     (case ig of (i, gate) \<Rightarrow>
     bind_err (getitem (dataDict st) fn) (\<lambda>d.
     bind_err (json_keys d) (\<lambda>ks.
       if gate \<in> set ks then
         bind_err
           (if \<not> py_in fn (colorsDict st) then
              bind_err (gate_data d gate) (\<lambda>xy.
              bind_err (getitem (labelsDict st) fn) (\<lambda>lbl.
              bind_err (ax_plot w (fst xy) (snd xy) lbl None fn (axs st ! i)) (\<lambda>la.
              Inr (st\<lparr>axs := (axs st)[i := snd la],
                      colorsDict := AList.update fn (line_color (fst la)) (colorsDict st)\<rparr>))))
            else
              bind_err (gate_data d gate) (\<lambda>xy.
              bind_err (getitem (labelsDict st) fn) (\<lambda>lbl.
              bind_err (getitem (colorsDict st) fn) (\<lambda>c.
              bind_err (ax_plot w (fst xy) (snd xy) lbl (Some c) fn (axs st ! i)) (\<lambda>la.
              Inr (st\<lparr>axs := (axs st)[i := snd la]\<rparr>))))))
           (\<lambda>st1.
              bind_err (gate_data d gate) (\<lambda>xy.
              bind_err (getitem (colorsDict st1) fn) (\<lambda>c.
              bind_err (ax_scatter (fst xy) (snd xy) c markerSize fn (axs st1 ! i)) (\<lambda>ax.
              Inr (st1\<lparr>axs := (axs st1)[i := decorate gate ax]\<rparr>)))))
       else Inr st)))"

text \<open>A \<^verbatim>\<open>for\<close> loop whose body may raise: the first exception ends it.\<close>

fun for_each :: "('a \<Rightarrow> 's \<Rightarrow> error + 's) \<Rightarrow> 'a list \<Rightarrow> 's \<Rightarrow> error + 's" where
  "for_each body [] s = Inr s"
| "for_each body (x # xs) s =
     (case body x s of Inl e \<Rightarrow> Inl e | Inr s' \<Rightarrow> for_each body xs s')"

text \<open>
  Lines 40 to 89: the body of the outer loop. \<^verbatim>\<open>zip(axs.ravel(),gatesList)\<close> pairs
  the subplots with the gates and stops with the shorter list.
\<close>

definition process_file :: "world \<Rightarrow> config \<Rightarrow> string \<Rightarrow> state \<Rightarrow> error + state" where
  "process_file w cfg fPath st =
     (let fn = fName fPath in
      if fn \<in> set (ignoreList cfg) then Inr st
      else
        (let st1 = (if \<not> py_in fn (labelsDict st)
                    then st\<lparr>labelsDict := AList.update fn fn (labelsDict st)\<rparr> else st);
             st2 = st1\<lparr>stdout := stdout st1 @ [''fName:  '' @ fn]\<rparr>
         in case json_load (files w fPath) of
              Inl e \<Rightarrow> Inl e
            | Inr d \<Rightarrow>
                for_each (draw_gate w fn)
                  (zip [0..<length (axs st2)] gatesList)
                  (st2\<lparr>opened := opened st2 @ [fPath],
                       dataDict := AList.update fn d (dataDict st2)\<rparr>)))"

text \<open>The whole script: glob, sort, the outer loop, then \<^verbatim>\<open>plt.show()\<close>.\<close>

definition resultFiles :: "world \<Rightarrow> string list" where
  "resultFiles w = sort (glob_files (names w))"

definition run :: "world \<Rightarrow> config \<Rightarrow> error + state" where
  "run w cfg =
     bind_err (for_each (process_file w cfg) (resultFiles w) (init_state cfg))
       (\<lambda>st. Inr (st\<lparr>shown := True\<rparr>))"

section \<open>Notions used to state the properties\<close>

subsection \<open>Deleting every occurrence of a pattern\<close>

text \<open>
  Said without a scan: \<open>pat\<close> occurs in \<open>s\<close> at position \<open>i\<close>; position \<open>j\<close> is
  covered when it lies inside some occurrence; deleting every occurrence keeps the
  characters at the positions that are not covered.
\<close>

definition occurs_at :: "string \<Rightarrow> string \<Rightarrow> nat \<Rightarrow> bool" where
  "occurs_at pat s i = (take (length pat) (drop i s) = pat)"

definition covered :: "string \<Rightarrow> string \<Rightarrow> nat \<Rightarrow> bool" where
  "covered pat s j = list_ex (\<lambda>i. occurs_at pat s i \<and> j < i + length pat) [0..<Suc j]"

definition delete_occurrences :: "string \<Rightarrow> string \<Rightarrow> string" where
  "delete_occurrences pat s = map (nth s) (filter (\<lambda>j. \<not> covered pat s j) [0..<length s])"

text \<open>The text after the final \<open>/\<close> of a path (the whole path when it has none).\<close>

definition after_last_slash :: "string \<Rightarrow> string" where
  "after_last_slash p = rev (takeWhile (\<lambda>c. c \<noteq> CHR ''/'') (rev p))"

text \<open>A pattern that cannot overlap a shifted copy of itself.\<close>

definition unbordered :: "string \<Rightarrow> bool" where
  "unbordered pat \<longleftrightarrow>
     pat \<noteq> [] \<and> (\<forall>rest i. occurs_at pat (pat @ rest) i \<and> 0 < i \<longrightarrow> length pat \<le> i)"

subsection \<open>One drawn series\<close>

text \<open>
  What drawing one series of source \<open>fn\<close> does to the subplot of \<open>gate\<close>, given the
  colour recorded for \<open>fn\<close> (if any), and what it does to the colour table.
\<close>

definition series_axes ::
  "world \<Rightarrow> string \<Rightarrow> string \<Rightarrow> string \<Rightarrow> json \<Rightarrow> json \<Rightarrow> string option \<Rightarrow> axes \<Rightarrow> axes"
where
  "series_axes w fn gate lbl x y copt ax =
     (let c = (case copt of None \<Rightarrow> prop_cycle w (cycle_pos ax) | Some c \<Rightarrow> c) in
      decorate gate
        (ax\<lparr>lines := lines ax @
               [\<lparr>line_x = x, line_y = y, line_label = lbl, line_width = linewidth,
                 line_color = c, line_src = fn\<rparr>],
            cycle_pos := (case copt of None \<Rightarrow> Suc (cycle_pos ax) | Some _ \<Rightarrow> cycle_pos ax),
            collections := collections ax @
               [\<lparr>sc_x = x, sc_y = y, sc_color = c, sc_s = markerSize, sc_src = fn\<rparr>]\<rparr>))"

definition series_colors :: "world \<Rightarrow> string \<Rightarrow> axes \<Rightarrow> (string \<times> string) list \<Rightarrow> (string \<times> string) list" where
  "series_colors w fn ax cd =
     (case map_of cd fn of
        None \<Rightarrow> cd @ [(fn, prop_cycle w (cycle_pos ax))]
      | Some _ \<Rightarrow> cd)"

subsection \<open>Labels, colours and decoration\<close>

text \<open>
  The label the specification gives a source: the entry of the label table the user
  wrote when the source is a key of it, the source name itself otherwise.
\<close>

definition label_of :: "config \<Rightarrow> string \<Rightarrow> string" where
  "label_of cfg s = (case map_of (labels0 cfg) s of Some v \<Rightarrow> v | None \<Rightarrow> s)"

text \<open>A subplot carrying all of lines 82 to 89 for its gate.\<close>

definition decorated :: "string \<Rightarrow> axes \<Rightarrow> bool" where
  "decorated gate ax =
     (yscale ax = ''log'' \<and> legend ax = Some (map line_label (lines ax)) \<and>
      title ax = gate @ '' gate'' \<and> grid_on ax \<and>
      xlabel ax = ''n qubits'' \<and> ylabel ax = ''time (ns)'')"

text \<open>
  A line and its scatter overlay show one source in one colour, the colour the
  colour table holds for that source.
\<close>

definition same_color :: "state \<Rightarrow> line2d \<Rightarrow> path_collection \<Rightarrow> bool" where
  "same_color st l c =
     (sc_src c = line_src l \<and> sc_color c = line_color l \<and>
      map_of (colorsDict st) (line_src l) = Some (line_color l))"

subsection \<open>Invariants of the loops\<close>

definition labels_ok :: "config \<Rightarrow> state \<Rightarrow> bool" where
  "labels_ok cfg s =
     (\<forall>k. case map_of (labelsDict s) k of
             None \<Rightarrow> map_of (labels0 cfg) k = None
           | Some v \<Rightarrow> v = label_of cfg k)"

definition series_ok :: "config \<Rightarrow> state \<Rightarrow> bool" where
  "series_ok cfg s =
     (\<forall>ax \<in> set (axs s).
        list_all2 (\<lambda>l c. same_color s l c \<and> line_label l = label_of cfg (line_src l))
          (lines ax) (collections ax))"

definition layout_ok :: "state \<Rightarrow> bool" where
  "layout_ok s =
     (length (axs s) = 6 \<and>
      (\<forall>i<6. if lines (axs s ! i) = [] then axs s ! i = new_axes
              else i < length gatesList \<and> decorated (gatesList ! i) (axs s ! i)))"

definition inv :: "config \<Rightarrow> state \<Rightarrow> bool" where
  "inv cfg s = (labels_ok cfg s \<and> series_ok cfg s \<and> layout_ok s)"

text \<open>The state right after line 51: label defaulted, name printed, file opened and stored.\<close>

definition load_state :: "string \<Rightarrow> string \<Rightarrow> json \<Rightarrow> state \<Rightarrow> state" where
  "load_state fn fPath d st =
     st\<lparr>labelsDict := (if py_in fn (labelsDict st) then labelsDict st
                        else AList.update fn fn (labelsDict st)),
        stdout := stdout st @ [''fName:  '' @ fn],
        opened := opened st @ [fPath],
        dataDict := AList.update fn d (dataDict st)\<rparr>"

text \<open>What the inner loop leaves alone, and how it may extend the colour table.\<close>

definition gates_frame :: "string \<Rightarrow> state \<Rightarrow> state \<Rightarrow> bool" where
  "gates_frame fn s s' =
     (labelsDict s' = labelsDict s \<and> dataDict s' = dataDict s \<and> stdout s' = stdout s \<and>
      opened s' = opened s \<and> shown s' = shown s \<and>
      (colorsDict s' = colorsDict s \<or>
       (map_of (colorsDict s) fn = None \<and> (\<exists>c. colorsDict s' = colorsDict s @ [(fn, c)]))))"

subsection \<open>An example run\<close>

text \<open>
  A directory with two benchmark files, a malformed file whose name is ignored and a
  file that is not JSON; one label and one colour pinned.
\<close>

definition demo_record :: "(string \<times> (int list \<times> int list)) list \<Rightarrow> json" where
  "demo_record gs =
     JObj (map (\<lambda>(g, ns, ts). (g, JObj [(''nqubits'', JArr (map JInt ns)),
                                        (''times'', JArr (map JInt ts))])) gs)"

definition demo_world :: world where
  "demo_world =
     \<lparr>names = [''b.json'', ''skip.json'', ''README.md'', ''a.json''],
      files = (\<lambda>p. if p = ''benchmarking/data/a.json''
                      then Document (demo_record [(''X'', [1, 2, 3], [10, 20, 30])])
                    else if p = ''benchmarking/data/b.json''
                      then Document (demo_record [(''X'', [1, 2, 3], [15, 25, 35]),
                                                  (''H'', [1, 2], [7, 9])])
                    else if p = ''benchmarking/data/skip.json'' then Malformed
                    else Unreadable),
      prop_cycle = (\<lambda>k. ''C'' @ replicate k (CHR ''+''))\<rparr>"

definition demo_config :: config where
  "demo_config =
     \<lparr>labels0 = [(''b'', ''B run'')], ignoreList = [''skip''], colors0 = [(''b'', ''#C71585'')]\<rparr>"

subsection \<open>Drawn and expected series\<close>

text \<open>
  A record has a gate as a key; a file holds a record with that key. The sources that
  have both a line and a scatter overlay on a subplot, the (source, gate) pairs drawn
  in a state, and the pairs the files of a run call for. \<open>line_srcs\<close>, \<open>gate_srcs\<close> and
  \<open>file_srcs\<close> say the same by subplot index.
\<close>

definition has_key :: "json \<Rightarrow> string \<Rightarrow> bool" where
  "has_key d g = (case d of JObj kvs \<Rightarrow> g \<in> set (map fst kvs) | _ \<Rightarrow> False)"

definition has_gate :: "disk_file \<Rightarrow> string \<Rightarrow> bool" where
  "has_gate f g = (case f of Document d \<Rightarrow> has_key d g | _ \<Rightarrow> False)"

definition sources_on :: "axes \<Rightarrow> string list" where
  "sources_on ax =
     filter (\<lambda>s. s \<in> set (map sc_src (collections ax))) (map line_src (lines ax))"

definition series_drawn :: "state \<Rightarrow> (string \<times> string) set" where
  "series_drawn st =
     set (concat (map (\<lambda>(ax, gate). map (\<lambda>s. (s, gate)) (sources_on ax))
                   (zip (axs st) gatesList)))"

definition expected_series :: "world \<Rightarrow> config \<Rightarrow> (string \<times> string) set" where
  "expected_series w cfg =
     set (concat (map (\<lambda>p. map (\<lambda>g. (fName p, g)) (filter (has_gate (files w p)) gatesList))
                   (filter (\<lambda>p. fName p \<notin> set (ignoreList cfg)) (resultFiles w))))"

definition line_srcs :: "state \<Rightarrow> (nat \<times> string) set" where
  "line_srcs s = {(i, line_src l) | i l. i < length (axs s) \<and> l \<in> set (lines (axs s ! i))}"

definition gate_srcs :: "string \<Rightarrow> json \<Rightarrow> (nat \<times> string) set" where
  "gate_srcs fn d = {(i, fn) | i. i < length gatesList \<and> has_key d (gatesList ! i)}"

definition file_srcs :: "world \<Rightarrow> config \<Rightarrow> string \<Rightarrow> (nat \<times> string) set" where
  "file_srcs w cfg p =
     (if fName p \<in> set (ignoreList cfg) then {}
      else {(i, fName p) | i. i < length gatesList \<and> has_gate (files w p) (gatesList ! i)})"

subsection \<open>Files that are read\<close>

text \<open>
  A path is live when its derived name is not in the ignore list. The second example
  directory differs from the first only in the (ignored) file \<^verbatim>\<open>skip.json\<close>, which
  cannot be read at all.
\<close>

definition live :: "config \<Rightarrow> string \<Rightarrow> bool" where
  "live cfg p = (fName p \<notin> set (ignoreList cfg))"

definition demo_world_unreadable :: world where
  "demo_world_unreadable =
     demo_world\<lparr>files := (files demo_world)(''benchmarking/data/skip.json'' := Unreadable)\<rparr>"

subsection \<open>Taking colours from the cycles\<close>

text \<open>
  The assignment of automatic colours as the specification describes it. The first
  gate of a file is the subplot of the first gate of the gate list that its record
  has. Going through the paths in the order given, with the sources that have a
  colour and the position of each subplot's cycle: a source that has no colour yet and
  has a first gate takes the colour at the position of that subplot's cycle, and the
  cycle moves on by one. The result is the colours taken, in order, and the final
  positions. The third example configuration pins no colour.
\<close>

definition first_gate :: "disk_file \<Rightarrow> nat option" where
  "first_gate f =
     map_option fst (List.find (\<lambda>ig. has_gate f (snd ig)) (enumerate 0 gatesList))"

fun cycle_assignment ::
  "world \<Rightarrow> string list \<Rightarrow> nat list \<Rightarrow> string list \<Rightarrow> (string \<times> string) list \<times> nat list"
where
  "cycle_assignment w known pos [] = ([], pos)"
| "cycle_assignment w known pos (p # ps) =
     (case first_gate (files w p) of
        None \<Rightarrow> cycle_assignment w known pos ps
      | Some i \<Rightarrow>
          if fName p \<in> set known then cycle_assignment w known pos ps
          else (case cycle_assignment w (known @ [fName p]) (pos[i := Suc (pos ! i)]) ps of
                  (cs, pos') \<Rightarrow> ((fName p, prop_cycle w (pos ! i)) # cs, pos')))"

definition demo_config_unpinned :: config where
  "demo_config_unpinned = demo_config\<lparr>colors0 := []\<rparr>"

subsection \<open>The shape of a benchmark record\<close>

text \<open>
  The record of the specification: a mapping from gate names to records with two
  keys, \<^verbatim>\<open>nqubits\<close> and \<^verbatim>\<open>times\<close>, that hold numeric sequences of one length. The
  example directory of one file \<^verbatim>\<open>z.json\<close> holds the document given.
\<close>

definition gate_record :: "json \<Rightarrow> bool" where
  "gate_record v =
     (case v of
        JObj kvs \<Rightarrow>
          (case map_of kvs ''nqubits'' of
             Some x \<Rightarrow> (case map_of kvs ''times'' of Some y \<Rightarrow> plottable x y | None \<Rightarrow> False)
           | None \<Rightarrow> False)
      | _ \<Rightarrow> False)"

definition benchmark_record :: "json \<Rightarrow> bool" where
  "benchmark_record d =
     (case d of JObj kvs \<Rightarrow> list_all (\<lambda>kv. gate_record (snd kv)) kvs | _ \<Rightarrow> False)"

definition shape_world :: "json \<Rightarrow> world" where
  "shape_world d =
     \<lparr>names = [''z.json''],
      files = (\<lambda>p. if p = ''benchmarking/data/z.json'' then Document d else Unreadable),
      prop_cycle = prop_cycle demo_world\<rparr>"

section \<open>Facts about the string operations\<close>

lemma py_split_nonempty: "py_split sep s \<noteq> []"
  by (induction s) (auto split: list.splits)

lemma py_split_no_sep: "sep \<notin> set s \<Longrightarrow> py_split sep s = [s]"
  by (induction s) auto

lemma length_py_split: "length (py_split sep s) = Suc (length (filter (\<lambda>c. c = sep) s))"
  by (induction s) (auto split: list.splits)

lemma last_py_split_append:
  "sep \<notin> set t \<Longrightarrow> last (py_split sep (s @ sep # t)) = t"
proof (induction s)
  case Nil
  then show ?case by (simp add: py_split_no_sep)
next
  case (Cons a s)
  have "length (py_split sep (s @ sep # t)) \<ge> 2"
    by (simp add: length_py_split)
  then obtain w v ws where "py_split sep (s @ sep # t) = w # v # ws"
    by (cases "py_split sep (s @ sep # t)"; cases "tl (py_split sep (s @ sep # t))") auto
  with Cons show ?case by auto
qed

lemma last_py_split: "last (py_split sep s) = rev (takeWhile (\<lambda>c. c \<noteq> sep) (rev s))"
proof (cases "sep \<in> set s")
  case False
  then have tw: "takeWhile (\<lambda>c. c \<noteq> sep) (rev s) = rev s" by auto
  show ?thesis unfolding tw using False by (simp add: py_split_no_sep)
next
  case True
  then have "sep \<in> set (rev s)" by simp
  then obtain ys zs where r: "rev s = ys @ sep # zs" and n: "sep \<notin> set ys"
    by (meson split_list_first)
  from r have "rev (rev s) = rev (ys @ sep # zs)" by simp
  then have s: "s = rev zs @ sep # rev ys" by simp
  have t: "takeWhile (\<lambda>c. c \<noteq> sep) (rev s) = ys"
    unfolding r using n by (auto simp: takeWhile_append2 takeWhile_tail)
  show ?thesis unfolding t by (subst s) (simp add: last_py_split_append n)
qed

lemma covered_iff: "covered pat s j \<longleftrightarrow> (\<exists>i\<le>j. j < i + length pat \<and> occurs_at pat s i)"
  unfolding covered_def list_ex_iff set_upt by (auto simp: less_Suc_eq_le)

lemma occurs_at_0: "occurs_at pat s 0 \<longleftrightarrow> prefix pat s"
  by (auto simp: occurs_at_def prefix_def take_is_prefix) (metis append_take_drop_id)

lemma occurs_at_Suc: "occurs_at pat (c # cs) (Suc i) = occurs_at pat cs i"
  by (simp add: occurs_at_def)

lemma occurs_at_shift: "occurs_at pat (xs @ s) (length xs + i) = occurs_at pat s i"
  by (simp add: occurs_at_def)

lemma covered_Cons:
  assumes "\<not> prefix pat (c # cs)"
  shows "covered pat (c # cs) 0 = False" "covered pat (c # cs) (Suc j) = covered pat cs j"
proof -
  from assms have n0: "\<not> occurs_at pat (c # cs) 0" by (simp add: occurs_at_0)
  then show "covered pat (c # cs) 0 = False" by (simp add: covered_iff)
  show "covered pat (c # cs) (Suc j) = covered pat cs j"
  proof
    assume "covered pat (c # cs) (Suc j)"
    then obtain i where i: "i \<le> Suc j" "Suc j < i + length pat" "occurs_at pat (c # cs) i"
      by (auto simp: covered_iff)
    with n0 obtain i' where "i = Suc i'" by (cases i) auto
    with i show "covered pat cs j" by (auto simp: covered_iff occurs_at_Suc)
  next
    assume "covered pat cs j"
    then obtain i where "i \<le> j" "j < i + length pat" "occurs_at pat cs i"
      by (auto simp: covered_iff)
    then have "Suc i \<le> Suc j \<and> Suc j < Suc i + length pat \<and> occurs_at pat (c # cs) (Suc i)"
      by (simp add: occurs_at_Suc)
    then show "covered pat (c # cs) (Suc j)" unfolding covered_iff by blast
  qed
qed

lemma delete_occurrences_Cons:
  assumes "\<not> prefix pat (c # cs)"
  shows "delete_occurrences pat (c # cs) = c # delete_occurrences pat cs"
proof -
  have "[0..<length (c # cs)] = 0 # map Suc [0..<length cs]"
    by (simp add: upt_conv_Cons map_Suc_upt del: upt_Suc)
  then show ?thesis
    by (simp add: delete_occurrences_def covered_Cons[OF assms] filter_map comp_def)
qed

lemma nth_append_shift: "(xs @ s) ! (length xs + j) = s ! j"
  by (simp add: nth_append)

lemma covered_prefix:
  assumes "j < length pat"
  shows "covered pat (pat @ rest) j"
proof -
  have "occurs_at pat (pat @ rest) 0" by (simp add: occurs_at_def)
  with assms show ?thesis unfolding covered_iff by (intro exI[of _ 0]) simp
qed

lemma covered_shift:
  assumes "unbordered pat"
  shows "covered pat (pat @ rest) (length pat + j) = covered pat rest j"
proof
  assume "covered pat (pat @ rest) (length pat + j)"
  then obtain i where i: "i \<le> length pat + j" "length pat + j < i + length pat"
      "occurs_at pat (pat @ rest) i"
    by (auto simp: covered_iff)
  then have "0 < i" by arith
  with assms i(3) have "length pat \<le> i" unfolding unbordered_def by blast
  then obtain i' where i': "i = length pat + i'"
    using le_Suc_ex by blast
  have "occurs_at pat rest i'"
    using i(3) unfolding i' by (simp only: occurs_at_shift)
  with i i' show "covered pat rest j" unfolding covered_iff by (intro exI[of _ i']) simp
next
  assume "covered pat rest j"
  then obtain i where i: "i \<le> j" "j < i + length pat" "occurs_at pat rest i"
    by (auto simp: covered_iff)
  have "occurs_at pat (pat @ rest) (length pat + i)"
    using i(3) by (simp only: occurs_at_shift)
  with i show "covered pat (pat @ rest) (length pat + j)"
    unfolding covered_iff by (intro exI[of _ "length pat + i"]) simp
qed

lemma upt_shift: "[k..<k + n] = map (\<lambda>j. k + j) [0..<n]"
  by (induction n) simp_all

lemma delete_occurrences_prefix:
  assumes "unbordered pat"
  shows "delete_occurrences pat (pat @ rest) = delete_occurrences pat rest"
proof -
  have "[0..<length pat + length rest] = [0..<length pat] @ [length pat..<length pat + length rest]"
    by (rule upt_add_eq_append) simp
  then have u: "[0..<length (pat @ rest)] =
      [0..<length pat] @ map (\<lambda>j. length pat + j) [0..<length rest]"
    by (simp only: length_append upt_shift[symmetric])
  have f1: "filter (\<lambda>j. \<not> covered pat (pat @ rest) j) [0..<length pat] = []"
    unfolding filter_empty_conv by (simp add: covered_prefix)
  have f2: "filter (\<lambda>j. \<not> covered pat (pat @ rest) j) (map (\<lambda>j. length pat + j) [0..<length rest])
      = map (\<lambda>j. length pat + j) (filter (\<lambda>j. \<not> covered pat rest j) [0..<length rest])"
    unfolding filter_map comp_def covered_shift[OF assms] ..
  show ?thesis
    unfolding delete_occurrences_def u filter_append f1 f2
    by (simp only: append_Nil map_map comp_def nth_append_shift)
qed

lemma replace_scan_delete:
  "unbordered old \<Longrightarrow> replace_scan old [] s = delete_occurrences old s"
proof (induction old "[] :: string" s rule: replace_scan.induct)
  case (1 old)
  show ?case by (simp add: delete_occurrences_def)
next
  case (2 old c cs)
  from 2(3) have ne: "old \<noteq> []" by (simp add: unbordered_def)
  show ?case
  proof (cases "prefix old (c # cs)")
    case True
    then obtain rest where r: "c # cs = old @ rest" by (auto simp: prefix_def)
    have d: "drop (length old) (c # cs) = rest" unfolding r by simp
    have "replace_scan old [] (c # cs) = replace_scan old [] rest"
      using True ne by (simp only: replace_scan.simps d if_True append_Nil simp_thms)
    also have "\<dots> = delete_occurrences old rest"
      using 2(1)[OF conjI[OF ne True] 2(3)] unfolding d .
    finally show ?thesis unfolding r by (simp only: delete_occurrences_prefix[OF 2(3)])
  next
    case False
    then show ?thesis using 2(2) 2(3) by (simp add: delete_occurrences_Cons)
  qed
qed

lemma unbordered_json: "unbordered ''.json''"
  unfolding unbordered_def
proof (intro conjI allI impI)
  show "''.json'' \<noteq> []" by simp
next
  fix rest i
  assume a: "occurs_at ''.json'' (''.json'' @ rest) i \<and> 0 < i"
  then have occ: "take (length ''.json'') (drop i (''.json'' @ rest)) = ''.json''"
    and pos: "0 < i"
    unfolding occurs_at_def by blast+
  have "5 \<le> i"
  proof (rule ccontr)
    assume "\<not> 5 \<le> i"
    with pos consider "i = Suc 0" | "i = Suc (Suc 0)" | "i = Suc (Suc (Suc 0))"
      | "i = Suc (Suc (Suc (Suc 0)))" by arith
    then show False
    proof cases
      case 1 with occ show False by simp
    next
      case 2 with occ show False by simp
    next
      case 3 with occ show False by simp
    next
      case 4 with occ show False by simp
    qed
  qed
  then show "length ''.json'' \<le> i" by simp
qed

lemma fnmatch_literal:
  "CHR ''*'' \<notin> set lit \<Longrightarrow> CHR ''?'' \<notin> set lit \<Longrightarrow> fnmatch lit s \<longleftrightarrow> s = lit"
  by (induction lit s rule: fnmatch.induct) auto

lemma fnmatch_star_literal:
  "CHR ''*'' \<notin> set lit \<Longrightarrow> CHR ''?'' \<notin> set lit \<Longrightarrow> fnmatch (CHR ''*'' # lit) s \<longleftrightarrow> suffix lit s"
  by (induction s) (auto simp: fnmatch_literal suffix_Cons)

lemma fnmatch_json: "fnmatch ''*.json'' n \<longleftrightarrow> suffix ''.json'' n"
  by (rule fnmatch_star_literal) simp_all

section \<open>The derived source name\<close>

text \<open>
  C10: the derived source name of a file is its last path component (the text after
  the final \<open>/\<close>) with every occurrence of \<open>.json\<close> deleted, not only a trailing
  extension: \<open>a.json.json\<close> gives \<open>a\<close> and \<open>x.jsonfoo.json\<close> gives \<open>xfoo\<close>.
\<close>

theorem fName_deletes_every_json:
  "fName fPath = delete_occurrences ''.json'' (after_last_slash fPath)
   \<and> fName ''benchmarking/data/a.json.json'' = ''a''
   \<and> fName ''benchmarking/data/x.jsonfoo.json'' = ''xfoo''"
proof -
  have "py_replace ''.json'' [] s = delete_occurrences ''.json'' s" for s
    unfolding py_replace_def using replace_scan_delete[OF unbordered_json, of s] by simp
  then have "fName fPath = delete_occurrences ''.json'' (after_last_slash fPath)"
    unfolding fName_def after_last_slash_def last_py_split by simp
  moreover have "fName ''benchmarking/data/a.json.json'' = ''a''"
    by code_simp
  moreover have "fName ''benchmarking/data/x.jsonfoo.json'' = ''xfoo''"
    by code_simp
  ultimately show ?thesis by blast
qed

section \<open>File discovery\<close>

text \<open>
  C4, as the specification words it (every file of the data directory is matched and
  becomes an input), fails: the pattern is \<open>*.json\<close>. Of a directory holding
  \<open>README.md\<close>, \<open>.hidden.json\<close> and \<open>a.json\<close> only the last is discovered.
\<close>

theorem glob_files_skips_other_files:
  "glob_files [''README.md'', ''.hidden.json'', ''a.json''] = [''benchmarking/data/a.json'']"
  by code_simp

text \<open>
  C4, amended: the discovered inputs are exactly the names of the data directory that
  end in \<open>.json\<close> and do not begin with a dot, each joined to the directory.
\<close>

theorem resultFiles_are_json_names:
  "set (resultFiles w) =
     {''benchmarking/data/'' @ n | n. n \<in> set (names w) \<and> suffix ''.json'' n \<and> \<not> prefix ''.'' n}"
proof -
  have h: "is_hidden n \<longleftrightarrow> prefix ''.'' n" for n
    by (cases n) (auto simp: is_hidden_def)
  show ?thesis
    unfolding resultFiles_def glob_files_def path_def
    by (auto simp: fnmatch_json h)
qed

section \<open>Facts about the loops\<close>

lemma update_absent: "map_of al k = None \<Longrightarrow> AList.update k v al = al @ [(k, v)]"
  by (induction al) (auto split: if_splits)

lemma py_in_map_of: "py_in k d \<longleftrightarrow> map_of d k \<noteq> None"
  by (simp add: py_in_def map_of_eq_None_iff)

lemma getitem_Inr: "getitem d k = Inr v \<longleftrightarrow> map_of d k = Some v"
  by (simp add: getitem_def split: option.splits)

lemma json_keys_Inr: "json_keys d = Inr ks \<longleftrightarrow> (\<exists>kvs. d = JObj kvs \<and> ks = map fst kvs)"
  by (cases d) (auto simp: json_keys_def)

lemma bind_err_Inr: "bind_err r f = Inr y \<longleftrightarrow> (\<exists>x. r = Inr x \<and> f x = Inr y)"
  by (cases r) (simp_all add: bind_err_def)

lemma ax_plot_Inr:
  "ax_plot w x y lbl copt fn ax = Inr la \<longleftrightarrow>
     plottable x y \<and>
     la = (\<lparr>line_x = x, line_y = y, line_label = lbl, line_width = linewidth,
              line_color = (case copt of None \<Rightarrow> prop_cycle w (cycle_pos ax) | Some c \<Rightarrow> c),
              line_src = fn\<rparr>,
           ax\<lparr>lines := lines ax @
               [\<lparr>line_x = x, line_y = y, line_label = lbl, line_width = linewidth,
                 line_color = (case copt of None \<Rightarrow> prop_cycle w (cycle_pos ax) | Some c \<Rightarrow> c),
                 line_src = fn\<rparr>],
              cycle_pos := (case copt of None \<Rightarrow> Suc (cycle_pos ax) | Some _ \<Rightarrow> cycle_pos ax)\<rparr>)"
  by (cases copt) (auto simp: ax_plot_def Let_def)

lemma ax_scatter_Inr:
  "ax_scatter x y c s fn ax = Inr ax' \<longleftrightarrow>
     plottable x y \<and>
     ax' = ax\<lparr>collections := collections ax @
                [\<lparr>sc_x = x, sc_y = y, sc_color = c, sc_s = s, sc_src = fn\<rparr>]\<rparr>"
  by (auto simp: ax_scatter_def)

lemma draw_gate_skip:
  assumes "map_of (dataDict st) fn = Some (JObj kvs)" "g \<notin> fst ` set kvs"
  shows "draw_gate w fn (i, g) st = Inr st"
  using assms by (simp add: draw_gate_def bind_err_def getitem_def json_keys_def)

lemma draw_gate_Inr:
  assumes "draw_gate w fn (i, g) st = Inr st'" and "i < length (axs st)"
  shows "\<exists>kvs. map_of (dataDict st) fn = Some (JObj kvs) \<and>
     (if g \<in> fst ` set kvs
      then \<exists>x y lbl. gate_data (JObj kvs) g = Inr (x, y) \<and> plottable x y \<and>
             map_of (labelsDict st) fn = Some lbl \<and>
             st' = st\<lparr>colorsDict := series_colors w fn (axs st ! i) (colorsDict st),
                      axs := (axs st)[i := series_axes w fn g lbl x y (map_of (colorsDict st) fn) (axs st ! i)]\<rparr>
      else st' = st)"
proof -
  from assms(1) obtain d ks where d: "map_of (dataDict st) fn = Some d"
    and ks: "json_keys d = Inr ks"
    and body: "(if g \<in> set ks then
         bind_err
           (if \<not> py_in fn (colorsDict st) then
              bind_err (gate_data d g) (\<lambda>xy.
              bind_err (getitem (labelsDict st) fn) (\<lambda>lbl.
              bind_err (ax_plot w (fst xy) (snd xy) lbl None fn (axs st ! i)) (\<lambda>la.
              Inr (st\<lparr>axs := (axs st)[i := snd la],
                      colorsDict := AList.update fn (line_color (fst la)) (colorsDict st)\<rparr>))))
            else
              bind_err (gate_data d g) (\<lambda>xy.
              bind_err (getitem (labelsDict st) fn) (\<lambda>lbl.
              bind_err (getitem (colorsDict st) fn) (\<lambda>c.
              bind_err (ax_plot w (fst xy) (snd xy) lbl (Some c) fn (axs st ! i)) (\<lambda>la.
              Inr (st\<lparr>axs := (axs st)[i := snd la]\<rparr>))))))
           (\<lambda>st1.
              bind_err (gate_data d g) (\<lambda>xy.
              bind_err (getitem (colorsDict st1) fn) (\<lambda>c.
              bind_err (ax_scatter (fst xy) (snd xy) c markerSize fn (axs st1 ! i)) (\<lambda>ax.
              Inr (st1\<lparr>axs := (axs st1)[i := decorate g ax]\<rparr>)))))
       else Inr st) = Inr st'"
    unfolding draw_gate_def by (auto simp: bind_err_Inr getitem_Inr)
  from ks obtain kvs where kvs: "d = JObj kvs" "ks = map fst kvs"
    by (auto simp: json_keys_Inr)
  show ?thesis
  proof (cases "g \<in> fst ` set kvs")
    case False
    with body kvs d show ?thesis by auto
  next
    case True
    with kvs have gin: "g \<in> set ks" by simp
    show ?thesis
    proof (cases "map_of (colorsDict st) fn")
      case None
      then have nin: "\<not> py_in fn (colorsDict st)" by (simp add: py_in_map_of)
      from body gin nin obtain xy lbl la st1 xy' c ax' where
        gd: "gate_data d g = Inr xy" and lbl: "map_of (labelsDict st) fn = Some lbl"
        and pl: "ax_plot w (fst xy) (snd xy) lbl None fn (axs st ! i) = Inr la"
        and st1: "st1 = st\<lparr>axs := (axs st)[i := snd la],
                      colorsDict := AList.update fn (line_color (fst la)) (colorsDict st)\<rparr>"
        and gd': "gate_data d g = Inr xy'"
        and c: "map_of (colorsDict st1) fn = Some c"
        and sc: "ax_scatter (fst xy') (snd xy') c markerSize fn (axs st1 ! i) = Inr ax'"
        and st': "st' = st1\<lparr>axs := (axs st1)[i := decorate g ax']\<rparr>"
        by (auto simp: bind_err_Inr getitem_Inr)
      from gd gd' have xy': "xy' = xy" by simp
      from c st1 have cval: "c = line_color (fst la)" by (simp add: update_conv')
      from pl have pt: "plottable (fst xy) (snd xy)" by (simp add: ax_plot_Inr)
      have "st' = st\<lparr>colorsDict := series_colors w fn (axs st ! i) (colorsDict st),
                      axs := (axs st)[i := series_axes w fn g lbl (fst xy) (snd xy) None (axs st ! i)]\<rparr>"
        using pl sc assms(2) None unfolding st' st1 xy' cval
        by (auto simp: ax_plot_Inr ax_scatter_Inr series_axes_def series_colors_def update_absent decorate_def Let_def)
      with gd lbl pt None have "\<exists>x y lbl. gate_data (JObj kvs) g = Inr (x, y) \<and> plottable x y \<and>
             map_of (labelsDict st) fn = Some lbl \<and>
             st' = st\<lparr>colorsDict := series_colors w fn (axs st ! i) (colorsDict st),
                      axs := (axs st)[i := series_axes w fn g lbl x y (map_of (colorsDict st) fn) (axs st ! i)]\<rparr>"
        unfolding kvs by (intro exI[of _ "fst xy"] exI[of _ "snd xy"] exI[of _ lbl]) simp
      with True d kvs show ?thesis by simp
    next
      case (Some c0)
      then have isin: "py_in fn (colorsDict st)" by (simp add: py_in_map_of)
      from body gin isin Some obtain xy lbl la st1 xy' c ax' where
        gd: "gate_data d g = Inr xy" and lbl: "map_of (labelsDict st) fn = Some lbl"
        and pl: "ax_plot w (fst xy) (snd xy) lbl (Some c0) fn (axs st ! i) = Inr la"
        and st1: "st1 = st\<lparr>axs := (axs st)[i := snd la]\<rparr>"
        and gd': "gate_data d g = Inr xy'"
        and c: "map_of (colorsDict st1) fn = Some c"
        and sc: "ax_scatter (fst xy') (snd xy') c markerSize fn (axs st1 ! i) = Inr ax'"
        and st': "st' = st1\<lparr>axs := (axs st1)[i := decorate g ax']\<rparr>"
        by (auto simp: bind_err_Inr getitem_Inr)
      from gd gd' have xy': "xy' = xy" by simp
      from c st1 Some have cval: "c = c0" by simp
      from pl have pt: "plottable (fst xy) (snd xy)" by (simp add: ax_plot_Inr)
      have "st' = st\<lparr>colorsDict := series_colors w fn (axs st ! i) (colorsDict st),
                      axs := (axs st)[i := series_axes w fn g lbl (fst xy) (snd xy) (Some c0) (axs st ! i)]\<rparr>"
        using pl sc assms(2) Some unfolding st' st1 xy' cval
        by (auto simp: ax_plot_Inr ax_scatter_Inr series_axes_def series_colors_def decorate_def Let_def)
      with gd lbl pt Some have "\<exists>x y lbl. gate_data (JObj kvs) g = Inr (x, y) \<and> plottable x y \<and>
             map_of (labelsDict st) fn = Some lbl \<and>
             st' = st\<lparr>colorsDict := series_colors w fn (axs st ! i) (colorsDict st),
                      axs := (axs st)[i := series_axes w fn g lbl x y (map_of (colorsDict st) fn) (axs st ! i)]\<rparr>"
        unfolding kvs by (intro exI[of _ "fst xy"] exI[of _ "snd xy"] exI[of _ lbl]) simp
      with True d kvs show ?thesis by simp
    qed
  qed
qed

lemma for_each_inv:
  assumes "for_each body xs s = Inr s'" and "I s"
    and "\<And>x s s'. x \<in> set xs \<Longrightarrow> I s \<Longrightarrow> body x s = Inr s' \<Longrightarrow> I s'"
  shows "I s'"
  using assms
proof (induction xs arbitrary: s)
  case Nil
  then show ?case by simp
next
  case (Cons x xs)
  from Cons.prems(1) obtain s1 where s1: "body x s = Inr s1" and rest: "for_each body xs s1 = Inr s'"
    by (auto split: sum.splits)
  have "I s1" using Cons.prems(3)[of x s s1] Cons.prems(2) s1 by simp
  moreover have "\<And>y t t'. y \<in> set xs \<Longrightarrow> I t \<Longrightarrow> body y t = Inr t' \<Longrightarrow> I t'"
    using Cons.prems(3) by (meson list.set_intros(2))
  ultimately show ?case using Cons.IH[OF rest] by blast
qed

lemma for_each_rel:
  assumes "for_each body xs s = Inr s'" and "I s"
    and step: "\<And>x s s'. x \<in> set xs \<Longrightarrow> I s \<Longrightarrow> body x s = Inr s' \<Longrightarrow> I s' \<and> R s s'"
    and refl: "\<And>s. R s s"
    and trans: "\<And>a b c. R a b \<Longrightarrow> R b c \<Longrightarrow> R a c"
  shows "I s' \<and> R s s'"
  using assms(1,2,3)
proof (induction xs arbitrary: s)
  case Nil
  then show ?case by (simp add: refl)
next
  case (Cons x xs)
  from Cons.prems(1) obtain s1 where s1: "body x s = Inr s1" and rest: "for_each body xs s1 = Inr s'"
    by (auto split: sum.splits)
  have a: "I s1 \<and> R s s1" using Cons.prems(3)[of x s s1] Cons.prems(2) s1 by simp
  have "\<And>y t t'. y \<in> set xs \<Longrightarrow> I t \<Longrightarrow> body y t = Inr t' \<Longrightarrow> I t' \<and> R t t'"
    using Cons.prems(3) by (meson list.set_intros(2))
  with a have "I s' \<and> R s1 s'" using Cons.IH[OF rest] by blast
  with a show ?case using trans by blast
qed

lemma for_each_append_obs:
  assumes "for_each body xs s = Inr s'" and "I s"
    and step: "\<And>x s s'. x \<in> set xs \<Longrightarrow> I s \<Longrightarrow> body x s = Inr s' \<Longrightarrow> I s' \<and> obs s' = obs s @ f x"
  shows "I s' \<and> obs s' = obs s @ concat (map f xs)"
  using assms
proof (induction xs arbitrary: s)
  case Nil
  then show ?case by simp
next
  case (Cons x xs)
  from Cons.prems(1) obtain s1 where s1: "body x s = Inr s1" and rest: "for_each body xs s1 = Inr s'"
    by (auto split: sum.splits)
  have a: "I s1 \<and> obs s1 = obs s @ f x" using Cons.prems(3)[of x s s1] Cons.prems(2) s1 by simp
  have "\<And>y t t'. y \<in> set xs \<Longrightarrow> I t \<Longrightarrow> body y t = Inr t' \<Longrightarrow> I t' \<and> obs t' = obs t @ f y"
    using Cons.prems(3) by (meson list.set_intros(2))
  with a have "I s' \<and> obs s' = obs s1 @ concat (map f xs)" using Cons.IH[OF rest] by blast
  with a show ?case by simp
qed

lemma for_each_union_obs:
  assumes "for_each body xs s = Inr s'" and "I s"
    and step: "\<And>x s s'. x \<in> set xs \<Longrightarrow> I s \<Longrightarrow> body x s = Inr s' \<Longrightarrow> I s' \<and> obs s' = obs s \<union> f x"
  shows "I s' \<and> obs s' = obs s \<union> \<Union> (f ` set xs)"
  using assms
proof (induction xs arbitrary: s)
  case Nil
  then show ?case by simp
next
  case (Cons x xs)
  from Cons.prems(1) obtain s1 where s1: "body x s = Inr s1" and rest: "for_each body xs s1 = Inr s'"
    by (auto split: sum.splits)
  have a: "I s1 \<and> obs s1 = obs s \<union> f x" using Cons.prems(3)[of x s s1] Cons.prems(2) s1 by simp
  have "\<And>y t t'. y \<in> set xs \<Longrightarrow> I t \<Longrightarrow> body y t = Inr t' \<Longrightarrow> I t' \<and> obs t' = obs t \<union> f y"
    using Cons.prems(3) by (meson list.set_intros(2))
  with a have "I s' \<and> obs s' = obs s1 \<union> \<Union> (f ` set xs)" using Cons.IH[OF rest] by blast
  with a show ?case by auto
qed

lemma for_each_filter:
  assumes "\<And>x s. x \<in> set xs \<Longrightarrow> \<not> P x \<Longrightarrow> body x s = Inr s"
  shows "for_each body (filter P xs) s = for_each body xs s"
  using assms by (induction xs arbitrary: s) (auto split: sum.splits)

lemma for_each_cong:
  assumes "\<And>x s. x \<in> set xs \<Longrightarrow> body x s = body' x s"
  shows "for_each body xs s = for_each body' xs s"
  using assms by (induction xs arbitrary: s) (auto split: sum.splits)

lemma series_axes_sel:
  "lines (series_axes w fn g lbl x y copt ax) = lines ax @
     [\<lparr>line_x = x, line_y = y, line_label = lbl, line_width = linewidth,
       line_color = (case copt of None \<Rightarrow> prop_cycle w (cycle_pos ax) | Some c \<Rightarrow> c),
       line_src = fn\<rparr>]"
  "collections (series_axes w fn g lbl x y copt ax) = collections ax @
     [\<lparr>sc_x = x, sc_y = y,
       sc_color = (case copt of None \<Rightarrow> prop_cycle w (cycle_pos ax) | Some c \<Rightarrow> c),
       sc_s = markerSize, sc_src = fn\<rparr>]"
  "decorated g (series_axes w fn g lbl x y copt ax)"
  by (simp_all add: series_axes_def decorate_def decorated_def Let_def)

lemma series_colors_mono:
  "map_of cd k = Some c \<Longrightarrow> map_of (series_colors w fn ax cd) k = Some c"
  by (auto simp: series_colors_def split: option.splits)

lemma series_colors_fn:
  "map_of (series_colors w fn ax cd) fn =
     Some (case map_of cd fn of None \<Rightarrow> prop_cycle w (cycle_pos ax) | Some c \<Rightarrow> c)"
  by (auto simp: series_colors_def map_add_def split: option.splits)

lemma same_color_mono:
  assumes "same_color s l c" "\<And>k v. map_of (colorsDict s) k = Some v \<Longrightarrow> map_of (colorsDict s') k = Some v"
  shows "same_color s' l c"
  using assms by (simp add: same_color_def)

text \<open>The state a successful inner step leaves, as draw_gate_Inr gives it.\<close>

lemma draw_gate_cases:
  assumes "draw_gate w fn (i, g) s = Inr s'" and "i < length (axs s)"
  obtains (skip) kvs where "map_of (dataDict s) fn = Some (JObj kvs)" "g \<notin> fst ` set kvs" "s' = s"
  | (draw) kvs x y lbl where "map_of (dataDict s) fn = Some (JObj kvs)" "g \<in> fst ` set kvs"
      "gate_data (JObj kvs) g = Inr (x, y)" "plottable x y" "map_of (labelsDict s) fn = Some lbl"
      "s' = s\<lparr>colorsDict := series_colors w fn (axs s ! i) (colorsDict s),
              axs := (axs s)[i := series_axes w fn g lbl x y (map_of (colorsDict s) fn) (axs s ! i)]\<rparr>"
proof -
  from draw_gate_Inr[OF assms] obtain kvs where d: "map_of (dataDict s) fn = Some (JObj kvs)"
    and c: "if g \<in> fst ` set kvs
      then \<exists>x y lbl. gate_data (JObj kvs) g = Inr (x, y) \<and> plottable x y \<and>
             map_of (labelsDict s) fn = Some lbl \<and>
             s' = s\<lparr>colorsDict := series_colors w fn (axs s ! i) (colorsDict s),
                     axs := (axs s)[i := series_axes w fn g lbl x y (map_of (colorsDict s) fn) (axs s ! i)]\<rparr>
      else s' = s"
    by blast
  show thesis
  proof (cases "g \<in> fst ` set kvs")
    case True
    with c obtain x y lbl where "gate_data (JObj kvs) g = Inr (x, y)" "plottable x y"
      "map_of (labelsDict s) fn = Some lbl"
      "s' = s\<lparr>colorsDict := series_colors w fn (axs s ! i) (colorsDict s),
              axs := (axs s)[i := series_axes w fn g lbl x y (map_of (colorsDict s) fn) (axs s ! i)]\<rparr>"
      by auto
    with d True show thesis by (rule draw)
  next
    case False
    with c have "s' = s" by simp
    with d False show thesis by (rule skip)
  qed
qed

lemma draw_gate_inv:
  assumes dg: "draw_gate w fn (i, g) s = Inr s'" and inv: "inv cfg s"
    and i: "i < length gatesList" and g: "g = gatesList ! i"
  shows "inv cfg s'"
proof -
  from inv have len: "length (axs s) = 6" by (simp add: inv_def layout_ok_def)
  from i have i6: "i < 6" by (simp add: gatesList_def)
  with len have il: "i < length (axs s)" by simp
  from dg il show ?thesis
  proof (cases rule: draw_gate_cases)
    case (skip kvs)
    with inv show ?thesis by simp
  next
    case (draw kvs x y lbl)
    let ?ax = "axs s ! i"
    let ?new = "series_axes w fn g lbl x y (map_of (colorsDict s) fn) ?ax"
    from inv have lo: "labels_ok cfg s" and so: "series_ok cfg s" and la: "layout_ok s"
      by (simp_all add: inv_def)
    from lo draw(5) have lbl: "lbl = label_of cfg fn"
      unfolding labels_ok_def by (metis option.simps(5))
    have l': "labels_ok cfg s'" using lo by (simp add: labels_ok_def draw(6))
    have mono: "\<And>k v. map_of (colorsDict s) k = Some v \<Longrightarrow> map_of (colorsDict s') k = Some v"
      by (simp add: draw(6) series_colors_mono)
    have old: "list_all2 (\<lambda>l c. same_color s' l c \<and> line_label l = label_of cfg (line_src l))
          (lines ax) (collections ax)" if "ax \<in> set (axs s)" for ax
    proof -
      from so that have "list_all2 (\<lambda>l c. same_color s l c \<and> line_label l = label_of cfg (line_src l))
          (lines ax) (collections ax)" by (simp add: series_ok_def)
      then show ?thesis
        by (rule list_all2_mono) (auto intro: same_color_mono[OF _ mono])
    qed
    have new: "list_all2 (\<lambda>l c. same_color s' l c \<and> line_label l = label_of cfg (line_src l))
          (lines ?new) (collections ?new)"
      unfolding series_axes_sel
      by (rule list_all2_appendI)
         (use old[of ?ax] il in \<open>auto simp: same_color_def draw(6) series_colors_fn lbl split: option.splits\<close>)
    have s': "series_ok cfg s'"
      unfolding series_ok_def
    proof
      fix ax assume "ax \<in> set (axs s')"
      then have "ax = ?new \<or> ax \<in> set (axs s)"
        using set_update_subset_insert[of "axs s" i ?new] by (auto simp: draw(6))
      with old new show "list_all2 (\<lambda>l c. same_color s' l c \<and> line_label l = label_of cfg (line_src l))
          (lines ax) (collections ax)" by blast
    qed
    have la': "layout_ok s'"
      unfolding layout_ok_def
    proof (intro conjI allI impI)
      show "length (axs s') = 6" using len by (simp add: draw(6))
    next
      fix j assume j: "j < (6::nat)"
      show "if lines (axs s' ! j) = [] then axs s' ! j = new_axes
            else j < length gatesList \<and> decorated (gatesList ! j) (axs s' ! j)"
      proof (cases "j = i")
        case True
        then have "axs s' ! j = ?new" using il by (simp add: draw(6))
        then show ?thesis using True i g by (simp add: series_axes_sel)
      next
        case False
        then have "axs s' ! j = axs s ! j" by (simp add: draw(6))
        then show ?thesis using la j by (simp add: layout_ok_def)
      qed
    qed
    from l' s' la' show ?thesis by (simp add: inv_def)
  qed
qed

lemma process_file_ignored:
  "fName p \<in> set (ignoreList cfg) \<Longrightarrow> process_file w cfg p s = Inr s"
  by (simp add: process_file_def)

lemma process_file_live:
  assumes "fName p \<notin> set (ignoreList cfg)"
  shows "process_file w cfg p s =
     (case files w p of
        Unreadable \<Rightarrow> Inl OSError
      | Undecodable \<Rightarrow> Inl UnicodeDecodeError
      | Malformed \<Rightarrow> Inl JSONDecodeError
      | Document d \<Rightarrow>
          for_each (draw_gate w (fName p)) (zip [0..<length (axs s)] gatesList)
            (load_state (fName p) p d s))"
  using assms
  by (auto simp: process_file_def json_load_def load_state_def Let_def split: disk_file.splits)

lemma load_state_sel:
  "colorsDict (load_state fn p d s) = colorsDict s"
  "axs (load_state fn p d s) = axs s"
  "stdout (load_state fn p d s) = stdout s @ [''fName:  '' @ fn]"
  "opened (load_state fn p d s) = opened s @ [p]"
  "shown (load_state fn p d s) = shown s"
  "map_of (dataDict (load_state fn p d s)) fn = Some d"
  by (simp_all add: load_state_def update_conv')

lemma gates_frame_refl: "gates_frame fn s s"
  by (simp add: gates_frame_def)

lemma gates_frame_trans:
  assumes "gates_frame fn a b" "gates_frame fn b c"
  shows "gates_frame fn a c"
  using assms unfolding gates_frame_def by (elim conjE disjE exE) auto

lemma draw_gate_frame:
  assumes "draw_gate w fn (i, g) s = Inr s'" "i < length (axs s)"
  shows "gates_frame fn s s'"
  using assms
proof (cases rule: draw_gate_cases)
  case (skip kvs)
  then show ?thesis by (simp add: gates_frame_refl)
next
  case (draw kvs x y lbl)
  then show ?thesis
    by (cases "map_of (colorsDict s) fn") (auto simp: gates_frame_def series_colors_def)
qed

lemma gate_axes_mem:
  assumes "(i, g) \<in> set (zip [0..<n] gatesList)"
  shows "i < n" "i < length gatesList" "g = gatesList ! i"
  using assms by (auto simp: set_zip)

lemma gates_loop:
  assumes run: "for_each (draw_gate w fn) (zip [0..<length (axs s)] gatesList) s = Inr s'"
    and inv: "inv cfg s"
  shows "inv cfg s' \<and> gates_frame fn s s'"
proof -
  from inv have len: "length (axs s) = 6" by (simp add: inv_def layout_ok_def)
  have "(inv cfg s' \<and> length (axs s') = 6) \<and> gates_frame fn s s'"
  proof (rule for_each_rel[where I = "\<lambda>t. inv cfg t \<and> length (axs t) = 6", OF run])
    show "inv cfg s \<and> length (axs s) = 6" using inv len by simp
  next
    fix x t t'
    assume x: "x \<in> set (zip [0..<length (axs s)] gatesList)"
      and t: "inv cfg t \<and> length (axs t) = 6" and step: "draw_gate w fn x t = Inr t'"
    obtain i g where xe: "x = (i, g)" by (cases x)
    from x xe len have i: "i < 6" "i < length gatesList" "g = gatesList ! i"
      using gate_axes_mem[of i g 6] by simp_all
    from step xe have st: "draw_gate w fn (i, g) t = Inr t'" by simp
    have "inv cfg t'" using draw_gate_inv[OF st _ i(2,3)] t by simp
    moreover then have "length (axs t') = 6" by (simp add: inv_def layout_ok_def)
    moreover have "gates_frame fn t t'" using draw_gate_frame[OF st] t i(1) by simp
    ultimately show "(inv cfg t' \<and> length (axs t') = 6) \<and> gates_frame fn t t'" by simp
  next
    show "\<And>s. gates_frame fn s s" by (rule gates_frame_refl)
  next
    show "\<And>a b c. gates_frame fn a b \<Longrightarrow> gates_frame fn b c \<Longrightarrow> gates_frame fn a c"
      by (rule gates_frame_trans)
  qed
  then show ?thesis by simp
qed

lemma label_of_absent: "map_of (labels0 cfg) k = None \<Longrightarrow> label_of cfg k = k"
  by (simp add: label_of_def)

lemma load_state_inv:
  assumes "inv cfg s"
  shows "inv cfg (load_state fn p d s)"
proof -
  from assms have lo: "labels_ok cfg s" and so: "series_ok cfg s" and la: "layout_ok s"
    by (simp_all add: inv_def)
  have "labels_ok cfg (load_state fn p d s)"
    unfolding labels_ok_def
  proof
    fix k
    show "case map_of (labelsDict (load_state fn p d s)) k of
            None \<Rightarrow> map_of (labels0 cfg) k = None
          | Some v \<Rightarrow> v = label_of cfg k"
    proof (cases "py_in fn (labelsDict s)")
      case True
      then have "labelsDict (load_state fn p d s) = labelsDict s" by (simp add: load_state_def)
      with lo show ?thesis by (simp add: labels_ok_def)
    next
      case False
      then have n: "map_of (labelsDict s) fn = None" by (simp add: py_in_map_of)
      with lo have "map_of (labels0 cfg) fn = None"
        unfolding labels_ok_def by (metis option.simps(4))
      then have lf: "label_of cfg fn = fn" by (rule label_of_absent)
      from False have m: "map_of (labelsDict (load_state fn p d s)) = (map_of (labelsDict s))(fn \<mapsto> fn)"
        by (simp add: load_state_def update_conv')
      show ?thesis
      proof (cases "k = fn")
        case True
        then show ?thesis by (simp add: m lf)
      next
        case False
        then have "map_of (labelsDict (load_state fn p d s)) k = map_of (labelsDict s) k"
          by (simp add: m)
        with lo show ?thesis by (simp add: labels_ok_def)
      qed
    qed
  qed
  moreover have "series_ok cfg (load_state fn p d s)"
    using so by (simp add: series_ok_def same_color_def load_state_sel)
  moreover have "layout_ok (load_state fn p d s)"
    using la by (simp add: layout_ok_def load_state_sel)
  ultimately show ?thesis by (simp add: inv_def)
qed

lemma process_file_inv:
  assumes "process_file w cfg p s = Inr s'" and "inv cfg s"
  shows "inv cfg s'"
proof (cases "fName p \<in> set (ignoreList cfg)")
  case True
  with assms show ?thesis by (simp add: process_file_ignored)
next
  case False
  with assms(1) obtain d where d: "files w p = Document d"
    and loop: "for_each (draw_gate w (fName p)) (zip [0..<length (axs s)] gatesList)
            (load_state (fName p) p d s) = Inr s'"
    by (auto simp: process_file_live split: disk_file.splits)
  from loop have "for_each (draw_gate w (fName p))
      (zip [0..<length (axs (load_state (fName p) p d s))] gatesList)
      (load_state (fName p) p d s) = Inr s'"
    by (simp add: load_state_sel)
  from gates_loop[OF this load_state_inv[OF assms(2)]] show ?thesis by simp
qed

lemma init_state_inv: "inv cfg (init_state cfg)"
proof -
  have "labels_ok cfg (init_state cfg)"
    by (auto simp: labels_ok_def init_state_def label_of_def split: option.splits)
  moreover have "series_ok cfg (init_state cfg)"
    by (simp add: series_ok_def init_state_def new_axes_def)
  moreover have "layout_ok (init_state cfg)"
    by (simp add: layout_ok_def init_state_def new_axes_def)
  ultimately show ?thesis by (simp add: inv_def)
qed

lemma files_loop_inv:
  assumes "for_each (process_file w cfg) ps s = Inr s'" and "inv cfg s"
  shows "inv cfg s'"
  using assms(1,2)
  by (rule for_each_inv) (rule process_file_inv)

lemma run_Inr:
  "run w cfg = Inr st \<longleftrightarrow>
     (\<exists>s. for_each (process_file w cfg) (resultFiles w) (init_state cfg) = Inr s \<and>
          st = s\<lparr>shown := True\<rparr>)"
  by (auto simp: run_def bind_err_Inr)

lemma run_inv:
  assumes "run w cfg = Inr st"
  shows "inv cfg st"
proof -
  from assms obtain s where s: "for_each (process_file w cfg) (resultFiles w) (init_state cfg) = Inr s"
    and st: "st = s\<lparr>shown := True\<rparr>"
    by (auto simp: run_Inr)
  from files_loop_inv[OF s init_state_inv] have "inv cfg s" .
  then show ?thesis
    by (simp add: st inv_def labels_ok_def series_ok_def layout_ok_def same_color_def)
qed

lemma demo_run: "run demo_world demo_config = Inr (projr (run demo_world demo_config))"
  by code_simp

lemma process_file_colors_mono:
  assumes "process_file w cfg p s = Inr s'" and "inv cfg s"
    and "map_of (colorsDict s) k = Some c"
  shows "map_of (colorsDict s') k = Some c"
proof (cases "fName p \<in> set (ignoreList cfg)")
  case True
  with assms show ?thesis by (simp add: process_file_ignored)
next
  case False
  with assms(1) obtain d where d: "files w p = Document d"
    and loop: "for_each (draw_gate w (fName p))
        (zip [0..<length (axs (load_state (fName p) p d s))] gatesList)
        (load_state (fName p) p d s) = Inr s'"
    by (auto simp: process_file_live load_state_sel split: disk_file.splits)
  from gates_loop[OF loop load_state_inv[OF assms(2)]]
  have "gates_frame (fName p) (load_state (fName p) p d s) s'" by simp
  then show ?thesis using assms(3)
    by (auto simp: gates_frame_def load_state_sel)
qed

lemma files_loop_colors_mono:
  assumes "for_each (process_file w cfg) ps s = Inr s'" and "inv cfg s"
    and "map_of (colorsDict s) k = Some c"
  shows "map_of (colorsDict s') k = Some c"
proof -
  have "inv cfg s' \<and> map_of (colorsDict s') k = Some c"
    by (rule for_each_inv[where I = "\<lambda>t. inv cfg t \<and> map_of (colorsDict t) k = Some c", OF assms(1)])
       (use assms(2,3) in \<open>auto intro: process_file_inv process_file_colors_mono\<close>)
  then show ?thesis by simp
qed

section \<open>Labels\<close>

text \<open>
  C6: for every drawn series the legend label is the value of the label-override map
  when the source's derived name is a key of that map, and the derived name itself
  otherwise; the legend of a subplot with series lists exactly these labels.
\<close>

theorem legend_label_resolution:
  assumes "run w cfg = Inr st"
  shows "list_all (\<lambda>ax.
           list_all (\<lambda>l. line_label l = label_of cfg (line_src l)) (lines ax) \<and>
           (lines ax = [] \<or>
            legend ax = Some (map (\<lambda>l. label_of cfg (line_src l)) (lines ax))))
         (axs st)"
proof -
  from run_inv[OF assms] have so: "series_ok cfg st" and la: "layout_ok st"
    by (simp_all add: inv_def)
  have lab: "list_all (\<lambda>l. line_label l = label_of cfg (line_src l)) (lines ax)"
    if "ax \<in> set (axs st)" for ax
  proof -
    from so that have "list_all2 (\<lambda>l c. same_color st l c \<and> line_label l = label_of cfg (line_src l))
        (lines ax) (collections ax)" by (simp add: series_ok_def)
    then show ?thesis
      by (auto simp: list_all_iff list_all2_conv_all_nth in_set_conv_nth)
  qed
  have leg: "lines ax = [] \<or> legend ax = Some (map (\<lambda>l. label_of cfg (line_src l)) (lines ax))"
    if "ax \<in> set (axs st)" for ax
  proof (cases "lines ax = []")
    case True
    then show ?thesis by simp
  next
    case False
    from that obtain i where i: "i < length (axs st)" "ax = axs st ! i"
      by (auto simp: in_set_conv_nth)
    with la False have "legend ax = Some (map line_label (lines ax))"
      by (auto simp: layout_ok_def decorated_def)
    moreover have "map line_label (lines ax) = map (\<lambda>l. label_of cfg (line_src l)) (lines ax)"
      using lab[OF that] by (simp add: list_all_iff)
    ultimately show ?thesis by simp
  qed
  show ?thesis unfolding list_all_iff using lab leg by (auto simp: list_all_iff)
qed

theorem legend_label_resolution_witness:
  "run demo_world demo_config = Inr (projr (run demo_world demo_config)) \<and>
   list_all (\<lambda>ax.
      list_all (\<lambda>l. line_label l = label_of demo_config (line_src l)) (lines ax) \<and>
      (lines ax = [] \<or>
       legend ax = Some (map (\<lambda>l. label_of demo_config (line_src l)) (lines ax))))
    (axs (projr (run demo_world demo_config))) \<and>
   map line_label (lines (axs (projr (run demo_world demo_config)) ! 0)) = [''a'', ''B run'']"
proof -
  have "map line_label (lines (axs (projr (run demo_world demo_config)) ! 0)) = [''a'', ''B run'']"
    by code_simp
  then show ?thesis
    using demo_run legend_label_resolution[OF demo_run] by blast
qed

section \<open>Colours\<close>

text \<open>
  C2: after a completed run every scatter overlay has the colour of its line, and that
  colour is the one recorded for the source, so all gates of a source share it; and
  once a colour is recorded for a source no later part of the run changes it.
\<close>

theorem color_reuse:
  "(run w cfg = Inr st \<longrightarrow>
      list_all (\<lambda>ax. list_all2 (same_color st) (lines ax) (collections ax)) (axs st)) \<and>
   (for_each (process_file w cfg) ps (init_state cfg) = Inr s \<and>
    for_each (process_file w cfg) qs s = Inr s' \<and>
    map_of (colorsDict s) k = Some c \<longrightarrow> map_of (colorsDict s') k = Some c)"
proof (intro conjI impI)
  assume r: "run w cfg = Inr st"
  from run_inv[OF r] have so: "series_ok cfg st" by (simp add: inv_def)
  show "list_all (\<lambda>ax. list_all2 (same_color st) (lines ax) (collections ax)) (axs st)"
    unfolding list_all_iff
  proof
    fix ax assume "ax \<in> set (axs st)"
    with so have "list_all2 (\<lambda>l c. same_color st l c \<and> line_label l = label_of cfg (line_src l))
        (lines ax) (collections ax)" by (simp add: series_ok_def)
    then show "list_all2 (same_color st) (lines ax) (collections ax)"
      by (rule list_all2_mono) simp
  qed
next
  assume a: "for_each (process_file w cfg) ps (init_state cfg) = Inr s \<and>
    for_each (process_file w cfg) qs s = Inr s' \<and> map_of (colorsDict s) k = Some c"
  then have "inv cfg s" using files_loop_inv[OF _ init_state_inv] by blast
  with a show "map_of (colorsDict s') k = Some c"
    using files_loop_colors_mono by blast
qed

theorem color_reuse_witness:
  "run demo_world demo_config = Inr (projr (run demo_world demo_config)) \<and>
   list_all (\<lambda>ax. list_all2 (same_color (projr (run demo_world demo_config))) (lines ax) (collections ax))
     (axs (projr (run demo_world demo_config))) \<and>
   for_each (process_file demo_world demo_config) [''benchmarking/data/a.json''] (init_state demo_config)
     = Inr (projr (for_each (process_file demo_world demo_config) [''benchmarking/data/a.json'']
         (init_state demo_config))) \<and>
   map_of (colorsDict (projr (for_each (process_file demo_world demo_config)
         [''benchmarking/data/a.json''] (init_state demo_config)))) ''a'' = Some ''C'' \<and>
   map_of (colorsDict (projr (run demo_world demo_config))) ''a'' = Some ''C''"
proof -
  let ?s = "projr (for_each (process_file demo_world demo_config) [''benchmarking/data/a.json'']
         (init_state demo_config))"
  let ?s' = "projr (for_each (process_file demo_world demo_config) [''benchmarking/data/b.json''] ?s)"
  have h1: "for_each (process_file demo_world demo_config) [''benchmarking/data/a.json'']
      (init_state demo_config) = Inr ?s" by code_simp
  have h2: "for_each (process_file demo_world demo_config) [''benchmarking/data/b.json''] ?s = Inr ?s'"
    by code_simp
  have h3: "map_of (colorsDict ?s) ''a'' = Some ''C''" by code_simp
  have h4: "colorsDict (projr (run demo_world demo_config)) = colorsDict ?s'" by code_simp
  from color_reuse[of demo_world demo_config "projr (run demo_world demo_config)"
      "[''benchmarking/data/a.json'']" ?s "[''benchmarking/data/b.json'']" ?s' "''a''" "''C''"]
    demo_run h1 h2 h3 h4
  show ?thesis by simp
qed

section \<open>Decoration of the subplots\<close>

text \<open>
  C3, as the specification words it (every gate subplot ends with a logarithmic
  scale, legend, title, grid and axis labels), fails: the decoration is done inside
  the test for the gate's presence. In the example run no file has gate \<open>T\<close>, and the
  subplot of \<open>T\<close> is left as it was created.
\<close>

theorem undrawn_gate_subplot_is_blank:
  "run demo_world demo_config = Inr (projr (run demo_world demo_config)) \<and>
   gatesList ! 2 = ''T'' \<and>
   yscale (axs (projr (run demo_world demo_config)) ! 2) = ''linear'' \<and>
   legend (axs (projr (run demo_world demo_config)) ! 2) = None \<and>
   title (axs (projr (run demo_world demo_config)) ! 2) = [] \<and>
   grid_on (axs (projr (run demo_world demo_config)) ! 2) = False \<and>
   xlabel (axs (projr (run demo_world demo_config)) ! 2) = [] \<and>
   ylabel (axs (projr (run demo_world demo_config)) ! 2) = []"
  by code_simp

text \<open>
  C3, amended: after a completed run there are six subplots; each of the five gate
  subplots on which a series was drawn has a logarithmic y scale, a legend listing the
  labels of all its lines, the title of its gate followed by \<open>gate\<close>, a grid and both
  axis labels; a gate subplot without series, and the sixth cell, are left blank.
\<close>

theorem subplots_decorated_where_drawn:
  assumes "run w cfg = Inr st"
  shows "length (axs st) = 6 \<and>
     list_all2 (\<lambda>ax gate. if lines ax = [] then ax = new_axes else decorated gate ax)
       (take 5 (axs st)) gatesList \<and>
     axs st ! 5 = new_axes"
proof -
  from run_inv[OF assms] have la: "layout_ok st" by (simp add: inv_def)
  then have len: "length (axs st) = 6"
    and each: "\<And>i. i < 6 \<Longrightarrow> (if lines (axs st ! i) = [] then axs st ! i = new_axes
              else i < length gatesList \<and> decorated (gatesList ! i) (axs st ! i))"
    by (simp_all add: layout_ok_def)
  have g5: "length gatesList = 5" by (simp add: gatesList_def)
  have "list_all2 (\<lambda>ax gate. if lines ax = [] then ax = new_axes else decorated gate ax)
       (take 5 (axs st)) gatesList"
    unfolding list_all2_conv_all_nth
  proof (intro conjI allI impI)
    show "length (take 5 (axs st)) = length gatesList" using len g5 by simp
  next
    fix i assume "i < length (take 5 (axs st))"
    then have i: "i < 5" by simp
    then have "take 5 (axs st) ! i = axs st ! i" by simp
    moreover from each[of i] i have "if lines (axs st ! i) = [] then axs st ! i = new_axes
        else decorated (gatesList ! i) (axs st ! i)" by (auto split: if_splits)
    ultimately show "if lines (take 5 (axs st) ! i) = [] then take 5 (axs st) ! i = new_axes
        else decorated (gatesList ! i) (take 5 (axs st) ! i)" by simp
  qed
  moreover from each[of 5] g5 have "axs st ! 5 = new_axes" by (auto split: if_splits)
  ultimately show ?thesis using len by simp
qed

theorem subplots_decorated_where_drawn_witness:
  "run demo_world demo_config = Inr (projr (run demo_world demo_config)) \<and>
   length (axs (projr (run demo_world demo_config))) = 6 \<and>
   list_all2 (\<lambda>ax gate. if lines ax = [] then ax = new_axes else decorated gate ax)
     (take 5 (axs (projr (run demo_world demo_config)))) gatesList \<and>
   axs (projr (run demo_world demo_config)) ! 5 = new_axes"
  using demo_run subplots_decorated_where_drawn[OF demo_run] by blast

section \<open>Sources drawn on each subplot\<close>

lemma line_srcs_update:
  assumes "i < length (axs s)" "lines ax = lines (axs s ! i) @ [l]" "line_src l = fn"
  shows "line_srcs (s\<lparr>colorsDict := cd, axs := (axs s)[i := ax]\<rparr>) = line_srcs s \<union> {(i, fn)}"
proof -
  have "\<And>j m. j < length (axs s) \<Longrightarrow> m \<in> set (lines ((axs s)[i := ax] ! j)) \<longleftrightarrow>
      m \<in> set (lines (axs s ! j)) \<or> (j = i \<and> m = l)"
    using assms by (auto simp: nth_list_update)
  then show ?thesis using assms(1,3) unfolding line_srcs_def by auto
qed

lemma draw_gate_line_srcs:
  assumes dg: "draw_gate w fn (i, g) s = Inr s'" and i: "i < length (axs s)"
    and d: "map_of (dataDict s) fn = Some d"
  shows "line_srcs s' = line_srcs s \<union> (if has_key d g then {(i, fn)} else {})"
  using dg i
proof (cases rule: draw_gate_cases)
  case (skip kvs)
  with d show ?thesis by (auto simp: has_key_def)
next
  case (draw kvs x y lbl)
  from draw(1) d have "d = JObj kvs" by simp
  with draw(2) have hk: "has_key d g" by (simp add: has_key_def)
  have "line_srcs s' = line_srcs s \<union> {(i, fn)}"
    unfolding draw(6)
    by (rule line_srcs_update[OF i]) (simp add: series_axes_sel, simp)
  with hk show ?thesis by simp
qed

lemma gates_loop_line_srcs:
  assumes run: "for_each (draw_gate w fn) (zip [0..<length (axs s)] gatesList) s = Inr s'"
    and len: "length (axs s) = 6" and d: "map_of (dataDict s) fn = Some d"
  shows "line_srcs s' = line_srcs s \<union> gate_srcs fn d"
proof -
  let ?I = "\<lambda>t. length (axs t) = 6 \<and> map_of (dataDict t) fn = Some d"
  let ?F = "\<lambda>(i, g). if has_key d g then {(i, fn)} else {}"
  have "?I s' \<and> line_srcs s' = line_srcs s \<union> \<Union> (?F ` set (zip [0..<length (axs s)] gatesList))"
  proof (rule for_each_union_obs[where I = ?I, OF run])
    show "?I s" using len d by simp
  next
    fix x t t'
    assume x: "x \<in> set (zip [0..<length (axs s)] gatesList)" and t: "?I t"
      and step: "draw_gate w fn x t = Inr t'"
    obtain i g where xe: "x = (i, g)" by (cases x)
    from x xe len have i: "i < 6" using gate_axes_mem(1)[of i g 6] by simp
    from step xe have st: "draw_gate w fn (i, g) t = Inr t'" by simp
    from t i have il: "i < length (axs t)" by simp
    from draw_gate_frame[OF st il] have fr: "gates_frame fn t t'" .
    have "length (axs t') = 6" using st il t
      by (cases rule: draw_gate_cases) auto
    moreover have "map_of (dataDict t') fn = Some d" using fr t by (simp add: gates_frame_def)
    moreover have "line_srcs t' = line_srcs t \<union> ?F x"
      using draw_gate_line_srcs[OF st il] t xe by simp
    ultimately show "?I t' \<and> line_srcs t' = line_srcs t \<union> ?F x" by simp
  qed
  moreover have "\<Union> (?F ` set (zip [0..<length (axs s)] gatesList)) = gate_srcs fn d"
    unfolding gate_srcs_def len
    by (auto simp: set_zip gatesList_def split: if_splits)
  ultimately show ?thesis by simp
qed

lemma process_file_line_srcs:
  assumes pf: "process_file w cfg p s = Inr s'" and inv: "inv cfg s"
  shows "line_srcs s' = line_srcs s \<union> file_srcs w cfg p"
proof (cases "fName p \<in> set (ignoreList cfg)")
  case True
  with pf show ?thesis by (simp add: process_file_ignored file_srcs_def)
next
  case False
  from inv have len: "length (axs s) = 6" by (simp add: inv_def layout_ok_def)
  from False pf obtain d where d: "files w p = Document d"
    and loop: "for_each (draw_gate w (fName p))
        (zip [0..<length (axs (load_state (fName p) p d s))] gatesList)
        (load_state (fName p) p d s) = Inr s'"
    by (auto simp: process_file_live load_state_sel split: disk_file.splits)
  have "line_srcs s' = line_srcs (load_state (fName p) p d s) \<union> gate_srcs (fName p) d"
    by (rule gates_loop_line_srcs[OF loop]) (simp_all add: load_state_sel len)
  moreover have "line_srcs (load_state (fName p) p d s) = line_srcs s"
    by (simp add: line_srcs_def load_state_sel)
  moreover have "gate_srcs (fName p) d = file_srcs w cfg p"
    using False d by (simp add: gate_srcs_def file_srcs_def has_gate_def)
  ultimately show ?thesis by simp
qed

lemma files_loop_line_srcs:
  assumes "for_each (process_file w cfg) ps s = Inr s'" and "inv cfg s"
  shows "line_srcs s' = line_srcs s \<union> \<Union> (file_srcs w cfg ` set ps)"
proof -
  have "inv cfg s' \<and> line_srcs s' = line_srcs s \<union> \<Union> (file_srcs w cfg ` set ps)"
  proof (rule for_each_union_obs[where I = "inv cfg", OF assms])
    fix x t t'
    assume "inv cfg t" and "process_file w cfg x t = Inr t'"
    then show "inv cfg t' \<and> line_srcs t' = line_srcs t \<union> file_srcs w cfg x"
      using process_file_inv process_file_line_srcs by blast
  qed
  then show ?thesis by simp
qed

lemma run_line_srcs:
  assumes "run w cfg = Inr st"
  shows "line_srcs st = \<Union> (file_srcs w cfg ` set (resultFiles w))"
proof -
  from assms obtain s where s: "for_each (process_file w cfg) (resultFiles w) (init_state cfg) = Inr s"
    and st: "st = s\<lparr>shown := True\<rparr>"
    by (auto simp: run_Inr)
  have e: "line_srcs (init_state cfg) = {}"
    by (auto simp: line_srcs_def init_state_def new_axes_def)
  have "line_srcs st = line_srcs s" by (simp add: st line_srcs_def)
  also have "\<dots> = line_srcs (init_state cfg) \<union> \<Union> (file_srcs w cfg ` set (resultFiles w))"
    by (rule files_loop_line_srcs[OF s init_state_inv])
  finally show ?thesis by (simp only: e Un_empty_left)
qed

lemma sources_on_ok:
  assumes "list_all2 (\<lambda>l c. same_color s l c \<and> P l) (lines ax) (collections ax)"
  shows "sources_on ax = map line_src (lines ax)"
proof -
  from assms have "map sc_src (collections ax) = map line_src (lines ax)"
    by (induction rule: list_all2_induct) (auto simp: same_color_def)
  then show ?thesis by (simp add: sources_on_def)
qed

lemma series_drawn_line_srcs:
  assumes "inv cfg st"
  shows "series_drawn st = {(s, gatesList ! i) | i s. i < length gatesList \<and> (i, s) \<in> line_srcs st}"
proof -
  from assms have so: "series_ok cfg st" and len: "length (axs st) = 6"
    by (simp_all add: inv_def layout_ok_def)
  have g5: "length gatesList = 5" by (simp add: gatesList_def)
  have on: "sources_on (axs st ! i) = map line_src (lines (axs st ! i))" if "i < 6" for i
  proof -
    from that len have "axs st ! i \<in> set (axs st)" by simp
    with so have "list_all2 (\<lambda>l c. same_color st l c \<and> line_label l = label_of cfg (line_src l))
        (lines (axs st ! i)) (collections (axs st ! i))" by (simp add: series_ok_def)
    then show ?thesis by (rule sources_on_ok)
  qed
  show ?thesis
    unfolding series_drawn_def line_srcs_def
    by (fastforce simp: set_zip len g5 on)
qed

lemma expected_series_alt:
  "expected_series w cfg =
     {(s, gatesList ! i) | i s. i < length gatesList \<and>
        (i, s) \<in> \<Union> (file_srcs w cfg ` set (resultFiles w))}"
proof -
  have g: "\<And>x. x \<in> set gatesList \<longleftrightarrow> (\<exists>i<length gatesList. x = gatesList ! i)"
    by (auto simp: in_set_conv_nth)
  show ?thesis
    unfolding expected_series_def file_srcs_def
    by (auto simp: g split: if_splits)
qed

section \<open>Which series are drawn\<close>

text \<open>
  C1: for a run that completes, the set of (source, gate) pairs for which a line and
  a scatter overlay are drawn is exactly the set of pairs of a discovered file's
  derived name and one of the five gate names such that the gate is a key of that
  file's parsed record and the derived name is not in the ignore set.
\<close>

theorem drawn_series_are_the_present_gates:
  assumes "run w cfg = Inr st"
  shows "series_drawn st = expected_series w cfg"
  using series_drawn_line_srcs[OF run_inv[OF assms]] run_line_srcs[OF assms]
  by (simp add: expected_series_alt)

theorem drawn_series_are_the_present_gates_witness:
  "run demo_world demo_config = Inr (projr (run demo_world demo_config)) \<and>
   series_drawn (projr (run demo_world demo_config)) = expected_series demo_world demo_config \<and>
   expected_series demo_world demo_config = {(''a'', ''X''), (''b'', ''X''), (''b'', ''H'')}"
proof -
  have "expected_series demo_world demo_config = {(''a'', ''X''), (''b'', ''X''), (''b'', ''H'')}"
    by code_simp
  then show ?thesis
    using demo_run drawn_series_are_the_present_gates[OF demo_run] by blast
qed

section \<open>Ignored files\<close>

lemma ax_plot_cong:
  assumes "prop_cycle w' = prop_cycle w"
  shows "ax_plot w' = ax_plot w"
proof (intro ext)
  fix x y lbl color src ax
  show "ax_plot w' x y lbl color src ax = ax_plot w x y lbl color src ax"
    unfolding ax_plot_def assms ..
qed

lemma draw_gate_cong:
  assumes "prop_cycle w' = prop_cycle w"
  shows "draw_gate w' = draw_gate w"
proof (intro ext)
  fix fn ig s
  show "draw_gate w' fn ig s = draw_gate w fn ig s"
    unfolding draw_gate_def ax_plot_cong[OF assms] ..
qed

lemma process_file_cong:
  assumes "prop_cycle w' = prop_cycle w"
    and "fName p \<notin> set (ignoreList cfg) \<Longrightarrow> files w' p = files w p"
  shows "process_file w' cfg p s = process_file w cfg p s"
proof (cases "fName p \<in> set (ignoreList cfg)")
  case True
  then show ?thesis by (simp add: process_file_ignored)
next
  case False
  with assms(2) have "files w' p = files w p" by simp
  then show ?thesis
    unfolding process_file_live[OF False] draw_gate_cong[OF assms(1)] by simp
qed

lemma glob_files_removeAll:
  "glob_files (removeAll n ns) = removeAll (path @ ''/'' @ n) (glob_files ns)"
  by (induction ns) (auto simp: glob_files_def)

lemma sort_removeAll: "sort (removeAll x xs) = removeAll x (sort xs)"
  by (simp add: removeAll_filter_not_eq filter_sort)

lemma resultFiles_removeAll:
  "resultFiles (w\<lparr>names := removeAll n (names w)\<rparr>) = removeAll (path @ ''/'' @ n) (resultFiles w)"
  by (simp add: resultFiles_def glob_files_removeAll sort_removeAll)

lemma files_loop_removeAll:
  assumes "fName q \<in> set (ignoreList cfg)"
  shows "for_each (process_file w cfg) (removeAll q ps) s = for_each (process_file w cfg) ps s"
  unfolding removeAll_filter_not_eq
  by (rule for_each_filter) (use assms in \<open>auto simp: process_file_ignored\<close>)

lemma run_line_src_live:
  assumes "run w cfg = Inr st" and "ax \<in> set (axs st)" and "l \<in> set (lines ax)"
  shows "line_src l \<notin> set (ignoreList cfg)"
proof -
  from assms(2) obtain i where i: "i < length (axs st)" "ax = axs st ! i"
    by (auto simp: in_set_conv_nth)
  with assms(3) have "(i, line_src l) \<in> line_srcs st" by (auto simp: line_srcs_def)
  with run_line_srcs[OF assms(1)] obtain p where "(i, line_src l) \<in> file_srcs w cfg p" by auto
  then show ?thesis by (auto simp: file_srcs_def split: if_splits)
qed

lemma run_sc_src_live:
  assumes "run w cfg = Inr st" and "ax \<in> set (axs st)" and "c \<in> set (collections ax)"
  shows "sc_src c \<notin> set (ignoreList cfg)"
proof -
  from run_inv[OF assms(1)] assms(2)
  have "list_all2 (\<lambda>l c. same_color st l c \<and> line_label l = label_of cfg (line_src l))
      (lines ax) (collections ax)" by (simp add: inv_def series_ok_def)
  then have "map sc_src (collections ax) = map line_src (lines ax)"
    by (induction rule: list_all2_induct) (auto simp: same_color_def)
  with assms(3) have "sc_src c \<in> line_src ` set (lines ax)"
    by (metis image_eqI set_map)
  with run_line_src_live[OF assms(1,2)] show ?thesis by auto
qed

text \<open>
  C7: a file whose derived source name is in the ignore set changes nothing: the run
  with the file in the directory is the run without it (same figure, same colour
  table, same cycle positions, or the same exception), and in a completed run no line
  and no scatter overlay of any subplot shows an ignored source.
\<close>

theorem ignored_file_changes_nothing:
  assumes "fName (path @ ''/'' @ n) \<in> set (ignoreList cfg)"
  shows "run (w\<lparr>names := removeAll n (names w)\<rparr>) cfg = run w cfg \<and>
    (run w cfg = Inr st \<longrightarrow>
       list_all (\<lambda>ax. list_all (\<lambda>l. line_src l \<notin> set (ignoreList cfg)) (lines ax) \<and>
                      list_all (\<lambda>c. sc_src c \<notin> set (ignoreList cfg)) (collections ax))
         (axs st))"
proof
  have pc: "process_file (w\<lparr>names := removeAll n (names w)\<rparr>) cfg = process_file w cfg"
    by (intro ext process_file_cong) simp_all
  show "run (w\<lparr>names := removeAll n (names w)\<rparr>) cfg = run w cfg"
    unfolding run_def pc resultFiles_removeAll files_loop_removeAll[OF assms] ..
next
  show "run w cfg = Inr st \<longrightarrow>
       list_all (\<lambda>ax. list_all (\<lambda>l. line_src l \<notin> set (ignoreList cfg)) (lines ax) \<and>
                      list_all (\<lambda>c. sc_src c \<notin> set (ignoreList cfg)) (collections ax))
         (axs st)"
    using run_line_src_live run_sc_src_live by (auto simp: list_all_iff)
qed

theorem ignored_file_changes_nothing_witness:
  "fName (path @ ''/'' @ ''skip.json'') \<in> set (ignoreList demo_config) \<and>
   names (demo_world\<lparr>names := removeAll ''skip.json'' (names demo_world)\<rparr>)
     = [''b.json'', ''README.md'', ''a.json''] \<and>
   run (demo_world\<lparr>names := removeAll ''skip.json'' (names demo_world)\<rparr>) demo_config
     = run demo_world demo_config \<and>
   run demo_world demo_config = Inr (projr (run demo_world demo_config)) \<and>
   list_all (\<lambda>ax. list_all (\<lambda>l. line_src l \<notin> set (ignoreList demo_config)) (lines ax) \<and>
                  list_all (\<lambda>c. sc_src c \<notin> set (ignoreList demo_config)) (collections ax))
     (axs (projr (run demo_world demo_config)))"
proof -
  have h: "fName (path @ ''/'' @ ''skip.json'') \<in> set (ignoreList demo_config)"
    by code_simp
  have n: "names (demo_world\<lparr>names := removeAll ''skip.json'' (names demo_world)\<rparr>)
     = [''b.json'', ''README.md'', ''a.json'']"
    by (simp add: demo_world_def)
  from ignored_file_changes_nothing[OF h, of demo_world "projr (run demo_world demo_config)"]
    demo_run h n
  show ?thesis by blast
qed

section \<open>The order of the outer loop\<close>

lemma process_file_order:
  assumes pf: "process_file w cfg p s = Inr s'" and inv: "inv cfg s"
  shows "opened s' = opened s @ filter (live cfg) [p]"
    and "stdout s' = stdout s @ map (\<lambda>p. ''fName:  '' @ fName p) (filter (live cfg) [p])"
    and "\<exists>ys. colorsDict s' = colorsDict s @ ys \<and> subseq (map fst ys) (map fName (filter (live cfg) [p]))"
proof -
  have "opened s' = opened s @ filter (live cfg) [p] \<and>
    stdout s' = stdout s @ map (\<lambda>p. ''fName:  '' @ fName p) (filter (live cfg) [p]) \<and>
    (\<exists>ys. colorsDict s' = colorsDict s @ ys \<and> subseq (map fst ys) (map fName (filter (live cfg) [p])))"
  proof (cases "live cfg p")
    case False
    with pf have "s' = s" by (simp add: live_def process_file_ignored)
    with False show ?thesis by simp
  next
    case True
    then have nl: "fName p \<notin> set (ignoreList cfg)" by (simp add: live_def)
    with pf obtain d where d: "files w p = Document d"
      and loop: "for_each (draw_gate w (fName p))
          (zip [0..<length (axs (load_state (fName p) p d s))] gatesList)
          (load_state (fName p) p d s) = Inr s'"
      by (auto simp: process_file_live load_state_sel split: disk_file.splits)
    from gates_loop[OF loop load_state_inv[OF inv]]
    have fr: "gates_frame (fName p) (load_state (fName p) p d s) s'" by simp
    then have o: "opened s' = opened s @ [p]" and so: "stdout s' = stdout s @ [''fName:  '' @ fName p]"
      by (simp_all add: gates_frame_def load_state_sel)
    from fr have "colorsDict s' = colorsDict s \<or> (\<exists>c. colorsDict s' = colorsDict s @ [(fName p, c)])"
      by (auto simp: gates_frame_def load_state_sel)
    then have "\<exists>ys. colorsDict s' = colorsDict s @ ys \<and> subseq (map fst ys) [fName p]"
    proof
      assume "colorsDict s' = colorsDict s"
      then have "colorsDict s' = colorsDict s @ [] \<and> subseq (map fst []) [fName p]" by simp
      then show ?thesis by blast
    next
      assume "\<exists>c. colorsDict s' = colorsDict s @ [(fName p, c)]"
      then obtain c where "colorsDict s' = colorsDict s @ [(fName p, c)]" by blast
      then have "colorsDict s' = colorsDict s @ [(fName p, c)] \<and>
          subseq (map fst [(fName p, c)]) [fName p]" by simp
      then show ?thesis by blast
    qed
    with True o so show ?thesis by simp
  qed
  then show "opened s' = opened s @ filter (live cfg) [p]"
    and "stdout s' = stdout s @ map (\<lambda>p. ''fName:  '' @ fName p) (filter (live cfg) [p])"
    and "\<exists>ys. colorsDict s' = colorsDict s @ ys \<and> subseq (map fst ys) (map fName (filter (live cfg) [p]))"
    by blast+
qed

lemma files_loop_order:
  assumes "for_each (process_file w cfg) ps s = Inr s'" and "inv cfg s"
  shows "opened s' = opened s @ filter (live cfg) ps \<and>
    stdout s' = stdout s @ map (\<lambda>p. ''fName:  '' @ fName p) (filter (live cfg) ps) \<and>
    (\<exists>ys. colorsDict s' = colorsDict s @ ys \<and> subseq (map fst ys) (map fName (filter (live cfg) ps)))"
  using assms
proof (induction ps arbitrary: s)
  case Nil
  then show ?case by simp
next
  case (Cons p ps)
  from Cons.prems(1) obtain s1 where s1: "process_file w cfg p s = Inr s1"
    and rest: "for_each (process_file w cfg) ps s1 = Inr s'"
    by (auto split: sum.splits)
  have i1: "inv cfg s1" by (rule process_file_inv[OF s1 Cons.prems(2)])
  note step = process_file_order[OF s1 Cons.prems(2)]
  from step(3) obtain ys1 where ys1: "colorsDict s1 = colorsDict s @ ys1"
    "subseq (map fst ys1) (map fName (filter (live cfg) [p]))" by blast
  from Cons.IH[OF rest i1] obtain ys2 where
    o: "opened s' = opened s1 @ filter (live cfg) ps"
    and so: "stdout s' = stdout s1 @ map (\<lambda>p. ''fName:  '' @ fName p) (filter (live cfg) ps)"
    and ys2: "colorsDict s' = colorsDict s1 @ ys2"
      "subseq (map fst ys2) (map fName (filter (live cfg) ps))" by blast
  have f: "filter (live cfg) (p # ps) = filter (live cfg) [p] @ filter (live cfg) ps" by simp
  have "subseq (map fst ys1 @ map fst ys2)
      (map fName (filter (live cfg) [p]) @ map fName (filter (live cfg) ps))"
    by (rule list_emb_append_mono[OF ys1(2) ys2(2)])
  then have "colorsDict s' = colorsDict s @ (ys1 @ ys2) \<and>
      subseq (map fst (ys1 @ ys2)) (map fName (filter (live cfg) (p # ps)))"
    unfolding f using ys1(1) ys2(1) by simp
  then have "\<exists>ys. colorsDict s' = colorsDict s @ ys \<and>
      subseq (map fst ys) (map fName (filter (live cfg) (p # ps)))" by blast
  moreover have "opened s' = opened s @ filter (live cfg) (p # ps)"
    unfolding f o step(1) by simp
  moreover have "stdout s' = stdout s @ map (\<lambda>p. ''fName:  '' @ fName p) (filter (live cfg) (p # ps))"
    unfolding f so step(2) by simp
  ultimately show ?case by blast
qed

lemma run_order:
  assumes "run w cfg = Inr st"
  shows "opened st = filter (live cfg) (resultFiles w)"
    and "stdout st = map (\<lambda>p. ''fName:  '' @ fName p) (filter (live cfg) (resultFiles w))"
    and "\<exists>ys. colorsDict st = colors0 cfg @ ys \<and>
           subseq (map fst ys) (map fName (filter (live cfg) (resultFiles w)))"
proof -
  from assms obtain s where s: "for_each (process_file w cfg) (resultFiles w) (init_state cfg) = Inr s"
    and st: "st = s\<lparr>shown := True\<rparr>"
    by (auto simp: run_Inr)
  from files_loop_order[OF s init_state_inv]
  show "opened st = filter (live cfg) (resultFiles w)"
    and "stdout st = map (\<lambda>p. ''fName:  '' @ fName p) (filter (live cfg) (resultFiles w))"
    and "\<exists>ys. colorsDict st = colors0 cfg @ ys \<and>
           subseq (map fst ys) (map fName (filter (live cfg) (resultFiles w)))"
    by (simp_all add: st init_state_def)
qed

text \<open>
  C9: a file whose derived source name is in the ignore set is never opened: every
  path a completed run has opened has a name outside the ignore set, and what the
  ignored files hold (a document, text that is not JSON, nothing readable) has no
  effect on the run, be it its figure or its exception.
\<close>

theorem ignored_file_never_opened:
  "(run w cfg = Inr st \<longrightarrow> list_all (live cfg) (opened st)) \<and>
   (names w' = names w \<and> prop_cycle w' = prop_cycle w \<and>
    (\<forall>p. live cfg p \<longrightarrow> files w' p = files w p) \<longrightarrow> run w' cfg = run w cfg)"
proof (intro conjI impI)
  assume "run w cfg = Inr st"
  from run_order(1)[OF this] show "list_all (live cfg) (opened st)"
    by (simp add: list_all_iff)
next
  assume a: "names w' = names w \<and> prop_cycle w' = prop_cycle w \<and>
    (\<forall>p. live cfg p \<longrightarrow> files w' p = files w p)"
  then have pc: "process_file w' cfg = process_file w cfg"
    by (intro ext process_file_cong) (simp_all add: live_def)
  from a have "resultFiles w' = resultFiles w" by (simp add: resultFiles_def)
  with pc show "run w' cfg = run w cfg" by (simp add: run_def)
qed

theorem ignored_file_never_opened_witness:
  "run demo_world demo_config = Inr (projr (run demo_world demo_config)) \<and>
   list_all (live demo_config) (opened (projr (run demo_world demo_config))) \<and>
   opened (projr (run demo_world demo_config))
     = [''benchmarking/data/a.json'', ''benchmarking/data/b.json''] \<and>
   files demo_world ''benchmarking/data/skip.json'' = Malformed \<and>
   files demo_world_unreadable ''benchmarking/data/skip.json'' = Unreadable \<and>
   run demo_world_unreadable demo_config = run demo_world demo_config"
proof -
  have o: "opened (projr (run demo_world demo_config))
     = [''benchmarking/data/a.json'', ''benchmarking/data/b.json'']" by code_simp
  have f: "files demo_world ''benchmarking/data/skip.json'' = Malformed"
    "files demo_world_unreadable ''benchmarking/data/skip.json'' = Unreadable"
    by (simp_all add: demo_world_def demo_world_unreadable_def)
  have sk: "\<not> live demo_config ''benchmarking/data/skip.json''"
    unfolding live_def by code_simp
  have h: "names demo_world_unreadable = names demo_world \<and>
    prop_cycle demo_world_unreadable = prop_cycle demo_world \<and>
    (\<forall>p. live demo_config p \<longrightarrow> files demo_world_unreadable p = files demo_world p)"
    using sk by (auto simp: demo_world_unreadable_def)
  from ignored_file_never_opened[of demo_world demo_config "projr (run demo_world demo_config)"
      demo_world_unreadable] demo_run h o f
  show ?thesis by blast
qed

lemma append_le_append: "(p @ a \<le> p @ b) \<longleftrightarrow> (a \<le> b)" for a b :: string
  by (induction p) simp_all

lemma insort_map_mono:
  assumes "\<And>a b. f a \<le> f b \<longleftrightarrow> a \<le> b"
  shows "insort (f x) (map f ys) = map f (insort x ys)"
  by (induction ys) (simp_all add: assms)

lemma sort_map_mono:
  assumes "\<And>a b. f a \<le> f b \<longleftrightarrow> a \<le> b"
  shows "sort (map f xs) = map f (sort xs)"
  by (induction xs) (simp_all add: insort_map_mono[OF assms])

lemma resultFiles_sorted_names:
  "resultFiles w = map (\<lambda>n. path @ ''/'' @ n)
     (sort (filter (\<lambda>n. \<not> is_hidden n \<and> fnmatch ''*.json'' n) (names w)))"
proof -
  have "\<And>a b :: string. (path @ ''/'' @ a \<le> path @ ''/'' @ b) \<longleftrightarrow> a \<le> b"
    using append_le_append[of "path @ ''/''"] by simp
  then show ?thesis
    unfolding resultFiles_def glob_files_def by (rule sort_map_mono)
qed

section \<open>The colour cycles\<close>

lemma cycle_pos_series_axes:
  "cycle_pos (series_axes w fn g lbl x y copt ax) =
     (case copt of None \<Rightarrow> Suc (cycle_pos ax) | Some c \<Rightarrow> cycle_pos ax)"
  by (simp add: series_axes_def decorate_def Let_def)

lemma gates_loop_cycle:
  assumes "for_each (draw_gate w fn) xs s = Inr s'"
    and "map_of (dataDict s) fn = Some d"
    and "\<And>ig. ig \<in> set xs \<Longrightarrow> fst ig < length (axs s)"
  shows "case (if map_of (colorsDict s) fn = None
               then List.find (\<lambda>ig. has_key d (snd ig)) xs else None) of
      None \<Rightarrow> colorsDict s' = colorsDict s \<and> map cycle_pos (axs s') = map cycle_pos (axs s)
    | Some ig \<Rightarrow>
        colorsDict s' = colorsDict s @ [(fn, prop_cycle w (cycle_pos (axs s ! fst ig)))] \<and>
        map cycle_pos (axs s') =
          (map cycle_pos (axs s))[fst ig := Suc (cycle_pos (axs s ! fst ig))]"
  using assms
proof (induction xs arbitrary: s)
  case Nil
  then show ?case by simp
next
  case (Cons a xs)
  obtain i g where a: "a = (i, g)" by (cases a)
  from Cons.prems(1) obtain s1 where s1: "draw_gate w fn (i, g) s = Inr s1"
    and rest: "for_each (draw_gate w fn) xs s1 = Inr s'"
    by (auto simp: a split: sum.splits)
  have i: "i < length (axs s)" using Cons.prems(3)[of a] by (simp add: a)
  from s1 i show ?case
  proof (cases rule: draw_gate_cases)
    case (skip kvs)
    with Cons.prems(2) have d: "d = JObj kvs" by simp
    have nk: "\<not> has_key d g" using skip(2) by (simp add: d has_key_def)
    have "\<And>ig. ig \<in> set xs \<Longrightarrow> fst ig < length (axs s)"
      using Cons.prems(3) by simp
    note ih = Cons.IH[OF rest[unfolded skip(3)] Cons.prems(2) this]
    have f: "List.find (\<lambda>ig. has_key d (snd ig)) (a # xs) = List.find (\<lambda>ig. has_key d (snd ig)) xs"
      using nk by (simp add: a)
    show ?thesis unfolding f by (rule ih)
  next
    case (draw kvs x y lbl)
    with Cons.prems(2) have d: "d = JObj kvs" by simp
    have k: "has_key d g" using draw(2) by (simp add: d has_key_def)
    have dd: "map_of (dataDict s1) fn = Some d" using Cons.prems(2) by (simp add: draw(6))
    have len: "length (axs s1) = length (axs s)" by (simp add: draw(6))
    have bound: "\<And>ig. ig \<in> set xs \<Longrightarrow> fst ig < length (axs s1)"
      using Cons.prems(3) by (simp add: len)
    note ih = Cons.IH[OF rest dd bound]
    show ?thesis
    proof (cases "map_of (colorsDict s) fn")
      case None
      have c1: "colorsDict s1 = colorsDict s @ [(fn, prop_cycle w (cycle_pos (axs s ! i)))]"
        by (simp add: draw(6) series_colors_def None)
      have p1: "map cycle_pos (axs s1) = (map cycle_pos (axs s))[i := Suc (cycle_pos (axs s ! i))]"
        by (simp add: draw(6) None map_update cycle_pos_series_axes)
      have "map_of (colorsDict s1) fn \<noteq> None"
        by (simp add: draw(6) series_colors_fn)
      with ih have "colorsDict s' = colorsDict s1 \<and> map cycle_pos (axs s') = map cycle_pos (axs s1)"
        by simp
      with c1 p1 None k show ?thesis by (simp add: a)
    next
      case (Some c)
      have c1: "colorsDict s1 = colorsDict s"
        by (simp add: draw(6) series_colors_def Some)
      have p1: "map cycle_pos (axs s1) = map cycle_pos (axs s)"
        using i by (simp add: draw(6) Some map_update cycle_pos_series_axes list_update_same_conv)
      from ih Some c1 have "colorsDict s' = colorsDict s1 \<and> map cycle_pos (axs s') = map cycle_pos (axs s1)"
        by simp
      with c1 p1 Some show ?thesis by simp
    qed
  qed
qed

lemma zip_gates: "zip [0..<6] gatesList = enumerate 0 gatesList"
  by (simp add: gatesList_def upt_rec)

lemma process_file_cycle:
  assumes pf: "process_file w cfg p s = Inr s'" and inv: "inv cfg s" and l: "live cfg p"
  shows "(colorsDict s', map cycle_pos (axs s')) =
     (case first_gate (files w p) of
        None \<Rightarrow> (colorsDict s, map cycle_pos (axs s))
      | Some i \<Rightarrow>
          if fName p \<in> set (map fst (colorsDict s)) then (colorsDict s, map cycle_pos (axs s))
          else (colorsDict s @ [(fName p, prop_cycle w (map cycle_pos (axs s) ! i))],
                (map cycle_pos (axs s))[i := Suc (map cycle_pos (axs s) ! i)]))"
proof -
  from l have nl: "fName p \<notin> set (ignoreList cfg)" by (simp add: live_def)
  from inv have len: "length (axs s) = 6" by (simp add: inv_def layout_ok_def)
  from pf nl obtain d where d: "files w p = Document d"
    and loop: "for_each (draw_gate w (fName p)) (zip [0..<length (axs s)] gatesList)
        (load_state (fName p) p d s) = Inr s'"
    by (auto simp: process_file_live split: disk_file.splits)
  let ?xs = "enumerate 0 gatesList"
  let ?s0 = "load_state (fName p) p d s"
  have loop': "for_each (draw_gate w (fName p)) ?xs ?s0 = Inr s'"
    using loop by (simp add: len zip_gates)
  have bound: "\<And>ig. ig \<in> set ?xs \<Longrightarrow> fst ig < length (axs ?s0)"
    by (auto simp: load_state_sel len in_set_enumerate_eq gatesList_def)
  note g = gates_loop_cycle[OF loop' load_state_sel(6) bound, unfolded load_state_sel]
  have hg: "(\<lambda>ig. has_gate (files w p) (snd ig)) = (\<lambda>ig. has_key d (snd ig))"
    by (simp add: d has_gate_def)
  have fg: "first_gate (files w p) = map_option fst (List.find (\<lambda>ig. has_key d (snd ig)) ?xs)"
    by (simp add: first_gate_def hg)
  have kn: "fName p \<in> set (map fst (colorsDict s)) \<longleftrightarrow> map_of (colorsDict s) (fName p) \<noteq> None"
    by (simp add: map_of_eq_None_iff)
  show ?thesis
  proof (cases "List.find (\<lambda>ig. has_key d (snd ig)) ?xs")
    case None
    with g show ?thesis by (simp add: fg split: if_splits)
  next
    case (Some ig)
    then have "ig \<in> set ?xs" by (auto simp: find_Some_iff in_set_conv_nth)
    from bound[OF this] have "fst ig < 6" by (simp add: load_state_sel len)
    show ?thesis
    proof (cases "map_of (colorsDict s) (fName p)")
      case None
      then have "fName p \<notin> fst ` set (colorsDict s)" by (simp add: map_of_eq_None_iff)
      with g Some None \<open>fst ig < 6\<close> show ?thesis by (simp add: fg len)
    next
      case (Some c)
      then have "fName p \<in> fst ` set (colorsDict s)"
        by (metis map_of_eq_None_iff option.distinct(1))
      with g Some \<open>List.find (\<lambda>ig. has_key d (snd ig)) ?xs = Some ig\<close> show ?thesis
        by (simp add: fg)
    qed
  qed
qed

lemma files_loop_cycle:
  assumes "for_each (process_file w cfg) ps s = Inr s'" and "inv cfg s"
  shows "(colorsDict s', map cycle_pos (axs s')) =
     (case cycle_assignment w (map fst (colorsDict s)) (map cycle_pos (axs s))
             (filter (live cfg) ps) of
        (cs, pos) \<Rightarrow> (colorsDict s @ cs, pos))"
  using assms
proof (induction ps arbitrary: s)
  case Nil
  then show ?case by simp
next
  case (Cons p ps)
  from Cons.prems(1) obtain s1 where s1: "process_file w cfg p s = Inr s1"
    and rest: "for_each (process_file w cfg) ps s1 = Inr s'"
    by (auto split: sum.splits)
  have i1: "inv cfg s1" by (rule process_file_inv[OF s1 Cons.prems(2)])
  note ih = Cons.IH[OF rest i1]
  show ?case
  proof (cases "live cfg p")
    case False
    with s1 have "s1 = s" by (simp add: live_def process_file_ignored)
    with ih False show ?thesis by simp
  next
    case True
    note step = process_file_cycle[OF s1 Cons.prems(2) True]
    show ?thesis
    proof (cases "first_gate (files w p)")
      case None
      with step have "colorsDict s1 = colorsDict s" "map cycle_pos (axs s1) = map cycle_pos (axs s)"
        by simp_all
      with ih True None show ?thesis by simp
    next
      case (Some i)
      show ?thesis
      proof (cases "fName p \<in> set (map fst (colorsDict s))")
        case known: True
        with step Some have "colorsDict s1 = colorsDict s"
          "map cycle_pos (axs s1) = map cycle_pos (axs s)"
          by simp_all
        with ih True Some known show ?thesis by simp
      next
        case unknown: False
        with step Some have c1: "colorsDict s1 =
            colorsDict s @ [(fName p, prop_cycle w (map cycle_pos (axs s) ! i))]"
          and p1: "map cycle_pos (axs s1) =
            (map cycle_pos (axs s))[i := Suc (map cycle_pos (axs s) ! i)]"
          by simp_all
        have k1: "map fst (colorsDict s1) = map fst (colorsDict s) @ [fName p]"
          by (simp add: c1)
        from ih True Some unknown show ?thesis
          unfolding k1 p1 by (simp add: c1 split: prod.splits)
      qed
    qed
  qed
qed

lemma run_cycle:
  assumes "run w cfg = Inr st"
  shows "colorsDict st = colors0 cfg @
           fst (cycle_assignment w (map fst (colors0 cfg)) (replicate 6 0) (opened st))"
    and "map cycle_pos (axs st) =
           snd (cycle_assignment w (map fst (colors0 cfg)) (replicate 6 0) (opened st))"
proof -
  from assms obtain s where s: "for_each (process_file w cfg) (resultFiles w) (init_state cfg) = Inr s"
    and st: "st = s\<lparr>shown := True\<rparr>"
    by (auto simp: run_Inr)
  have o: "opened st = filter (live cfg) (resultFiles w)" by (rule run_order(1)[OF assms])
  have p0: "map cycle_pos (axs (init_state cfg)) = replicate 6 0"
    by (simp add: init_state_def new_axes_def)
  have c0: "colorsDict (init_state cfg) = colors0 cfg" by (simp add: init_state_def)
  from files_loop_cycle[OF s init_state_inv]
  have "(colorsDict st, map cycle_pos (axs st)) =
     (case cycle_assignment w (map fst (colors0 cfg)) (replicate 6 0) (opened st) of
        (cs, pos) \<Rightarrow> (colors0 cfg @ cs, pos))"
    unfolding p0 c0 o by (simp add: st)
  then show "colorsDict st = colors0 cfg @
           fst (cycle_assignment w (map fst (colors0 cfg)) (replicate 6 0) (opened st))"
    and "map cycle_pos (axs st) =
           snd (cycle_assignment w (map fst (colors0 cfg)) (replicate 6 0) (opened st))"
    by (simp_all split: prod.splits)
qed

lemma run_line_colors:
  assumes "run w cfg = Inr st"
  shows "list_all (\<lambda>ax. list_all (\<lambda>l. map_of (colorsDict st) (line_src l) = Some (line_color l))
           (lines ax)) (axs st)"
proof -
  from run_inv[OF assms] have so: "series_ok cfg st" by (simp add: inv_def)
  have "map_of (colorsDict st) (line_src l) = Some (line_color l)"
    if ax: "ax \<in> set (axs st)" and l: "l \<in> set (lines ax)" for ax l
  proof -
    from so ax have la: "list_all2 (\<lambda>l c. same_color st l c \<and> line_label l = label_of cfg (line_src l))
          (lines ax) (collections ax)"
      by (simp add: series_ok_def)
    from l obtain k where k: "k < length (lines ax)" "lines ax ! k = l"
      by (auto simp: in_set_conv_nth)
    from list_all2_nthD[OF la k(1)] k(2) show ?thesis by (simp add: same_color_def)
  qed
  then show ?thesis by (simp add: list_all_iff)
qed

lemma demo_run_unpinned:
  "run demo_world demo_config_unpinned = Inr (projr (run demo_world demo_config_unpinned))"
  by code_simp

section \<open>Processing order and the colour cycles\<close>

text \<open>
  C5: the discovered files are processed in the lexicographic order of their file
  names (the sorted paths are the sorted names, each joined to the directory): the
  paths opened and the names printed are the sorted, non-ignored files in that
  order. That order is the order in which colours are taken from the automatic
  cycles: going through the files as they are processed, a source that has no colour
  yet and has data for some gate takes the next colour of the cycle of the subplot of
  its first gate, which moves that cycle on by one. The colour table of the run is the
  pinned colours followed by exactly these colours in this order, each subplot's
  cycle ends where this walk leaves it, and every line drawn has the colour the table
  holds for its source.
\<close>

theorem files_processed_in_sorted_order:
  assumes "run w cfg = Inr st"
  shows "resultFiles w = map (\<lambda>n. path @ ''/'' @ n)
           (sort (filter (\<lambda>n. \<not> is_hidden n \<and> fnmatch ''*.json'' n) (names w))) \<and>
    sorted (resultFiles w) \<and>
    opened st = filter (live cfg) (resultFiles w) \<and>
    stdout st = map (\<lambda>p. ''fName:  '' @ fName p) (opened st) \<and>
    take (length (colors0 cfg)) (colorsDict st) = colors0 cfg \<and>
    subseq (map fst (drop (length (colors0 cfg)) (colorsDict st))) (map fName (opened st)) \<and>
    colorsDict st = colors0 cfg @
      fst (cycle_assignment w (map fst (colors0 cfg)) (replicate 6 0) (opened st)) \<and>
    map cycle_pos (axs st) =
      snd (cycle_assignment w (map fst (colors0 cfg)) (replicate 6 0) (opened st)) \<and>
    list_all (\<lambda>ax. list_all (\<lambda>l. map_of (colorsDict st) (line_src l) = Some (line_color l))
      (lines ax)) (axs st)"
proof -
  note o = run_order[OF assms]
  from o(3) obtain ys where ys: "colorsDict st = colors0 cfg @ ys"
    "subseq (map fst ys) (map fName (filter (live cfg) (resultFiles w)))" by blast
  have "sorted (resultFiles w)" by (simp add: resultFiles_def)
  moreover have "take (length (colors0 cfg)) (colorsDict st) = colors0 cfg"
    by (simp add: ys(1))
  moreover have "subseq (map fst (drop (length (colors0 cfg)) (colorsDict st))) (map fName (opened st))"
    using ys(2) by (simp add: ys(1) o(1))
  moreover note run_cycle[OF assms] run_line_colors[OF assms]
  ultimately show ?thesis
    using resultFiles_sorted_names o(1) o(2) by simp
qed

theorem files_processed_in_sorted_order_witness:
  "run demo_world demo_config_unpinned = Inr (projr (run demo_world demo_config_unpinned)) \<and>
   names demo_world = [''b.json'', ''skip.json'', ''README.md'', ''a.json''] \<and>
   resultFiles demo_world = [''benchmarking/data/a.json'', ''benchmarking/data/b.json'',
     ''benchmarking/data/skip.json''] \<and>
   sorted (resultFiles demo_world) \<and>
   opened (projr (run demo_world demo_config_unpinned))
     = [''benchmarking/data/a.json'', ''benchmarking/data/b.json''] \<and>
   stdout (projr (run demo_world demo_config_unpinned)) = [''fName:  a'', ''fName:  b''] \<and>
   colors0 demo_config_unpinned = [] \<and>
   cycle_assignment demo_world [] (replicate 6 0)
       [''benchmarking/data/a.json'', ''benchmarking/data/b.json'']
     = ([(''a'', ''C''), (''b'', ''C+'')], [2, 0, 0, 0, 0, 0]) \<and>
   colorsDict (projr (run demo_world demo_config_unpinned)) = [(''a'', ''C''), (''b'', ''C+'')] \<and>
   map cycle_pos (axs (projr (run demo_world demo_config_unpinned))) = [2, 0, 0, 0, 0, 0] \<and>
   map (\<lambda>ax. map (\<lambda>l. (line_src l, line_color l)) (lines ax))
       (axs (projr (run demo_world demo_config_unpinned)))
     = [[(''a'', ''C''), (''b'', ''C+'')], [(''b'', ''C+'')], [], [], [], []] \<and>
   run demo_world demo_config = Inr (projr (run demo_world demo_config)) \<and>
   colorsDict (projr (run demo_world demo_config)) = [(''b'', ''#C71585''), (''a'', ''C'')] \<and>
   map cycle_pos (axs (projr (run demo_world demo_config))) = [1, 0, 0, 0, 0, 0]"
proof -
  have n: "names demo_world = [''b.json'', ''skip.json'', ''README.md'', ''a.json'']"
    by (simp add: demo_world_def)
  have r: "resultFiles demo_world = [''benchmarking/data/a.json'', ''benchmarking/data/b.json'',
     ''benchmarking/data/skip.json'']" by code_simp
  have o: "opened (projr (run demo_world demo_config_unpinned))
     = [''benchmarking/data/a.json'', ''benchmarking/data/b.json'']" by code_simp
  have s: "stdout (projr (run demo_world demo_config_unpinned)) = [''fName:  a'', ''fName:  b'']"
    by code_simp
  have c0: "colors0 demo_config_unpinned = []" by (simp add: demo_config_unpinned_def)
  have ca: "cycle_assignment demo_world [] (replicate 6 0)
       [''benchmarking/data/a.json'', ''benchmarking/data/b.json'']
     = ([(''a'', ''C''), (''b'', ''C+'')], [2, 0, 0, 0, 0, 0])" by code_simp
  have cp: "colors0 demo_config = [(''b'', ''#C71585'')]" by (simp add: demo_config_def)
  have cu: "cycle_assignment demo_world (map fst (colors0 demo_config_unpinned)) (replicate 6 0)
       (opened (projr (run demo_world demo_config_unpinned)))
     = ([(''a'', ''C''), (''b'', ''C+'')], [2, 0, 0, 0, 0, 0])" by code_simp
  have cq: "cycle_assignment demo_world (map fst (colors0 demo_config)) (replicate 6 0)
       (opened (projr (run demo_world demo_config)))
     = ([(''a'', ''C'')], [1, 0, 0, 0, 0, 0])" by code_simp
  note tu = files_processed_in_sorted_order[OF demo_run_unpinned, unfolded cu]
  note tp = files_processed_in_sorted_order[OF demo_run, unfolded cq]
  from tu have u1: "sorted (resultFiles demo_world)" by blast
  from tu have "colorsDict (projr (run demo_world demo_config_unpinned)) =
      colors0 demo_config_unpinned @ fst ([(''a'', ''C''), (''b'', ''C+'')], [2, 0, 0, 0, 0, 0::nat])"
    by blast
  then have u2: "colorsDict (projr (run demo_world demo_config_unpinned))
      = [(''a'', ''C''), (''b'', ''C+'')]"
    by (simp add: c0)
  from tu have "map cycle_pos (axs (projr (run demo_world demo_config_unpinned))) =
      snd ([(''a'', ''C''), (''b'', ''C+'')], [2, 0, 0, 0, 0, 0::nat])"
    by blast
  then have u3: "map cycle_pos (axs (projr (run demo_world demo_config_unpinned)))
      = [2, 0, 0, 0, 0, 0]"
    by simp
  from tp have "colorsDict (projr (run demo_world demo_config)) =
      colors0 demo_config @ fst ([(''a'', ''C'')], [1, 0, 0, 0, 0, 0::nat])"
    by blast
  then have p1: "colorsDict (projr (run demo_world demo_config))
      = [(''b'', ''#C71585''), (''a'', ''C'')]"
    by (simp add: cp)
  from tp have "map cycle_pos (axs (projr (run demo_world demo_config))) =
      snd ([(''a'', ''C'')], [1, 0, 0, 0, 0, 0::nat])"
    by blast
  then have p2: "map cycle_pos (axs (projr (run demo_world demo_config))) = [1, 0, 0, 0, 0, 0]"
    by simp
  have lc: "map (\<lambda>ax. map (\<lambda>l. (line_src l, line_color l)) (lines ax))
       (axs (projr (run demo_world demo_config_unpinned)))
     = [[(''a'', ''C''), (''b'', ''C+'')], [(''b'', ''C+'')], [], [], [], []]" by code_simp
  from demo_run_unpinned demo_run n r o s c0 ca u1 u2 u3 lc p1 p2 show ?thesis by blast
qed

section \<open>Errors of the load step\<close>

lemma for_each_append:
  "for_each f (xs @ ys) s = bind_err (for_each f xs s) (for_each f ys)"
  by (induction xs arbitrary: s) (simp_all add: bind_err_def split: sum.splits)

lemma for_each_abort:
  assumes "x \<in> set xs" and "\<And>s. isl (f x s)"
  shows "isl (for_each f xs s)"
  using assms(1)
proof (induction xs arbitrary: s)
  case Nil
  then show ?case by simp
next
  case (Cons y ys)
  show ?case
  proof (cases "f y s")
    case (Inl e)
    then show ?thesis by simp
  next
    case (Inr s1)
    show ?thesis
    proof (cases "x = y")
      case True
      with assms(2)[of s] Inr show ?thesis by simp
    next
      case False
      with Cons.prems have "x \<in> set ys" by simp
      from Cons.IH[OF this] Inr show ?thesis by simp
    qed
  qed
qed

lemma for_each_error:
  assumes "for_each f xs s = Inl e"
  shows "\<exists>x s1. x \<in> set xs \<and> f x s1 = Inl e"
  using assms
proof (induction xs arbitrary: s)
  case Nil
  then show ?case by simp
next
  case (Cons y ys)
  show ?case
  proof (cases "f y s")
    case (Inl e1)
    with Cons.prems have "f y s = Inl e" by simp
    then have "y \<in> set (y # ys) \<and> f y s = Inl e" by simp
    then show ?thesis by blast
  next
    case (Inr s1)
    with Cons.prems have "for_each f ys s1 = Inl e" by simp
    from Cons.IH[OF this] obtain x s2 where "x \<in> set ys" "f x s2 = Inl e" by blast
    then have "x \<in> set (y # ys) \<and> f x s2 = Inl e" by simp
    then show ?thesis by blast
  qed
qed

lemma bind_err_Inl:
  "bind_err r f = Inl e \<longleftrightarrow> r = Inl e \<or> (\<exists>x. r = Inr x \<and> f x = Inl e)"
  by (cases r) (simp_all add: bind_err_def)

lemma getitem_Inl: "getitem d k = Inl e \<Longrightarrow> e = KeyError"
  by (simp add: getitem_def split: option.splits)

lemma json_keys_Inl: "json_keys v = Inl e \<Longrightarrow> e = AttributeError"
  by (simp add: json_keys_def split: json.splits)

lemma subscript_Inl: "subscript v k = Inl e \<Longrightarrow> e = KeyError \<or> e = TypeError"
  by (auto simp: subscript_def dest: getitem_Inl split: json.splits)

lemma gate_data_Inl: "gate_data d g = Inl e \<Longrightarrow> e = KeyError \<or> e = TypeError"
  by (auto simp: gate_data_def bind_err_Inl dest: subscript_Inl)

lemma ax_plot_Inl: "ax_plot w x y lbl c src ax = Inl e \<Longrightarrow> e = ValueError"
  by (simp add: ax_plot_def Let_def split: if_splits option.splits)

lemma ax_scatter_Inl: "ax_scatter x y c m src ax = Inl e \<Longrightarrow> e = ValueError"
  by (simp add: ax_scatter_def split: if_splits)

lemma draw_gate_Inl:
  assumes "draw_gate w fn ig st = Inl e"
  shows "e \<in> set [AttributeError, KeyError, TypeError, ValueError]"
proof -
  obtain i gate where ig: "ig = (i, gate)" by (cases ig)
  from assms have "e = KeyError \<or> e = TypeError \<or> e = AttributeError \<or> e = ValueError"
    unfolding draw_gate_def ig
    by (auto simp: bind_err_Inl split: if_splits
        dest: getitem_Inl json_keys_Inl gate_data_Inl ax_plot_Inl ax_scatter_Inl)
  then show ?thesis by auto
qed

lemma process_file_unloadable:
  assumes "live cfg p" and "json_load (files w p) = Inl e"
  shows "process_file w cfg p s = Inl e"
  using assms
  by (auto simp: live_def process_file_live json_load_def split: disk_file.splits)

lemma process_file_Inl:
  assumes "process_file w cfg p s = Inl e"
  shows "live cfg p \<and>
    (json_load (files w p) = Inl e \<or> e \<in> set [AttributeError, KeyError, TypeError, ValueError])"
proof (cases "live cfg p")
  case False
  with assms show ?thesis by (simp add: live_def process_file_ignored)
next
  case True
  then have nl: "fName p \<notin> set (ignoreList cfg)" by (simp add: live_def)
  show ?thesis
  proof (cases "files w p")
    case (Document d)
    with assms have "for_each (draw_gate w (fName p)) (zip [0..<length (axs s)] gatesList)
            (load_state (fName p) p d s) = Inl e"
      by (simp add: process_file_live[OF nl])
    from for_each_error[OF this] obtain ig s1 where "draw_gate w (fName p) ig s1 = Inl e"
      by blast
    from draw_gate_Inl[OF this] True show ?thesis by simp
  qed (use assms True in \<open>simp_all add: process_file_live[OF nl] json_load_def\<close>)
qed

section \<open>Files that cannot be loaded\<close>

text \<open>
  C8, as the claim words it, does not hold: \<^verbatim>\<open>json.load\<close> (line 50) checks that the
  file is JSON, not that the document has the shape of a benchmark record. The
  document \<^verbatim>\<open>{"Z": 1}\<close> is not a mapping from gates to pairs of numeric sequences, yet
  the non-ignored file holding it is loaded, and the run completes, with the figure
  shown and nothing drawn.
\<close>

theorem wrong_shape_file_is_loaded:
  "\<not> benchmark_record (JObj [(''Z'', JInt 1)]) \<and>
   live script_config ''benchmarking/data/z.json'' \<and>
   resultFiles (shape_world (JObj [(''Z'', JInt 1)])) = [''benchmarking/data/z.json''] \<and>
   files (shape_world (JObj [(''Z'', JInt 1)])) ''benchmarking/data/z.json''
     = Document (JObj [(''Z'', JInt 1)]) \<and>
   json_load (files (shape_world (JObj [(''Z'', JInt 1)])) ''benchmarking/data/z.json'')
     = Inr (JObj [(''Z'', JInt 1)]) \<and>
   run (shape_world (JObj [(''Z'', JInt 1)])) script_config =
     Inr ((init_state script_config)
            \<lparr>labelsDict := labels0 script_config @ [(''z'', ''z'')],
             dataDict := [(''z'', JObj [(''Z'', JInt 1)])],
             stdout := [''fName:  z''],
             opened := [''benchmarking/data/z.json''],
             shown := True\<rparr>)"
proof (intro conjI)
  show "\<not> benchmark_record (JObj [(''Z'', JInt 1)])"
    by (simp add: benchmark_record_def gate_record_def)
  show "live script_config ''benchmarking/data/z.json''"
    unfolding live_def by code_simp
  show "resultFiles (shape_world (JObj [(''Z'', JInt 1)])) = [''benchmarking/data/z.json'']"
    by code_simp
  show "files (shape_world (JObj [(''Z'', JInt 1)])) ''benchmarking/data/z.json''
     = Document (JObj [(''Z'', JInt 1)])"
    by (simp add: shape_world_def)
  show "json_load (files (shape_world (JObj [(''Z'', JInt 1)])) ''benchmarking/data/z.json'')
     = Inr (JObj [(''Z'', JInt 1)])"
    by (simp add: shape_world_def json_load_def)
  show "run (shape_world (JObj [(''Z'', JInt 1)])) script_config =
     Inr ((init_state script_config)
            \<lparr>labelsDict := labels0 script_config @ [(''z'', ''z'')],
             dataDict := [(''z'', JObj [(''Z'', JInt 1)])],
             stdout := [''fName:  z''],
             opened := [''benchmarking/data/z.json''],
             shown := True\<rparr>)"
    by code_simp
qed

text \<open>
  C8, amended: a non-ignored file that the load step cannot load (it cannot be
  opened, is not text, or is not JSON) makes every run over a directory that holds
  it end in an exception, and in the exception of the load step itself when the
  files sorted before it went through: nothing catches it. Conversely, when the load
  step can load every non-ignored file of the directory, a run ends in no exception
  of the load step: it completes, or ends in an exception of the plotting step, which
  is where a document of another shape than a benchmark record can fail.
\<close>

theorem unloadable_file_aborts_run:
  "(live cfg p \<and> json_load (files w p) = Inl e \<longrightarrow>
      (p \<in> set (resultFiles w) \<longrightarrow> isl (run w cfg)) \<and>
      (resultFiles w = ps @ p # qs \<and>
       for_each (process_file w cfg) ps (init_state cfg) = Inr s0 \<longrightarrow>
         run w cfg = Inl e)) \<and>
   (list_all (\<lambda>p. live cfg p \<longrightarrow> \<not> isl (json_load (files w p))) (resultFiles w) \<longrightarrow>
      (\<forall>e'. run w cfg = Inl e' \<longrightarrow>
         e' \<in> set [AttributeError, KeyError, TypeError, ValueError]))"
proof (intro conjI impI allI)
  assume a: "live cfg p \<and> json_load (files w p) = Inl e" and m: "p \<in> set (resultFiles w)"
  from a have "\<And>s. isl (process_file w cfg p s)" by (simp add: process_file_unloadable)
  with m have "isl (for_each (process_file w cfg) (resultFiles w) (init_state cfg))"
    by (rule for_each_abort)
  then show "isl (run w cfg)"
    by (cases "for_each (process_file w cfg) (resultFiles w) (init_state cfg)")
      (simp_all add: run_def bind_err_def)
next
  assume a: "live cfg p \<and> json_load (files w p) = Inl e"
    and b: "resultFiles w = ps @ p # qs \<and>
       for_each (process_file w cfg) ps (init_state cfg) = Inr s0"
  from a have "process_file w cfg p s0 = Inl e"
    by (simp add: process_file_unloadable)
  with b show "run w cfg = Inl e"
    by (simp add: run_def for_each_append bind_err_def)
next
  fix e'
  assume a: "list_all (\<lambda>p. live cfg p \<longrightarrow> \<not> isl (json_load (files w p))) (resultFiles w)"
    and r: "run w cfg = Inl e'"
  from r have "for_each (process_file w cfg) (resultFiles w) (init_state cfg) = Inl e'"
    by (auto simp: run_def bind_err_Inl)
  from for_each_error[OF this] obtain p1 s1 where p1: "p1 \<in> set (resultFiles w)"
    and e: "process_file w cfg p1 s1 = Inl e'" by blast
  from process_file_Inl[OF e] have l: "live cfg p1"
    and c: "json_load (files w p1) = Inl e' \<or>
      e' \<in> set [AttributeError, KeyError, TypeError, ValueError]" by blast+
  from a p1 l have "\<not> isl (json_load (files w p1))" by (auto simp: list_all_iff)
  with c show "e' \<in> set [AttributeError, KeyError, TypeError, ValueError]" by auto
qed

theorem unloadable_file_aborts_run_witness:
  "live script_config ''benchmarking/data/skip.json'' \<and>
   json_load (files demo_world ''benchmarking/data/skip.json'') = Inl JSONDecodeError \<and>
   resultFiles demo_world =
     [''benchmarking/data/a.json'', ''benchmarking/data/b.json''] @
     ''benchmarking/data/skip.json'' # [] \<and>
   \<not> isl (for_each (process_file demo_world script_config)
     [''benchmarking/data/a.json'', ''benchmarking/data/b.json''] (init_state script_config)) \<and>
   isl (run demo_world script_config) \<and>
   run demo_world script_config = Inl JSONDecodeError \<and>
   resultFiles (shape_world (JObj [(''X'', JInt 7)])) = [''benchmarking/data/z.json''] \<and>
   live script_config ''benchmarking/data/z.json'' \<and>
   \<not> isl (json_load (files (shape_world (JObj [(''X'', JInt 7)])) ''benchmarking/data/z.json'')) \<and>
   run (shape_world (JObj [(''X'', JInt 7)])) script_config = Inl TypeError \<and>
   TypeError \<in> set [AttributeError, KeyError, TypeError, ValueError]"
proof -
  let ?p = "''benchmarking/data/skip.json''"
  let ?ps = "[''benchmarking/data/a.json'', ''benchmarking/data/b.json'']"
  let ?s0 = "projr (for_each (process_file demo_world script_config) ?ps (init_state script_config))"
  let ?w = "shape_world (JObj [(''X'', JInt 7)])"
  let ?z = "''benchmarking/data/z.json''"
  have l: "live script_config ?p" unfolding live_def by code_simp
  have f: "json_load (files demo_world ?p) = Inl JSONDecodeError"
    by (simp add: demo_world_def json_load_def)
  have r: "resultFiles demo_world = ?ps @ ?p # []" by code_simp
  have m: "?p \<in> set (resultFiles demo_world)" unfolding r by simp
  have ok: "for_each (process_file demo_world script_config) ?ps (init_state script_config)
      = Inr ?s0" by code_simp
  have ok': "\<not> isl (for_each (process_file demo_world script_config) ?ps (init_state script_config))"
    by (subst ok) simp
  have rz: "resultFiles ?w = [?z]" by code_simp
  have lz: "live script_config ?z" unfolding live_def by code_simp
  have jz: "\<not> isl (json_load (files ?w ?z))" by (simp add: shape_world_def json_load_def)
  have la: "list_all (\<lambda>p. live script_config p \<longrightarrow> \<not> isl (json_load (files ?w p)))
      (resultFiles ?w)"
    unfolding rz using jz by simp
  have tz: "run ?w script_config = Inl TypeError" by code_simp
  from unloadable_file_aborts_run[of script_config ?p demo_world JSONDecodeError ?ps "[]" ?s0]
    l f m r ok
  have a: "isl (run demo_world script_config)" "run demo_world script_config = Inl JSONDecodeError"
    by blast+
  from unloadable_file_aborts_run[of script_config ?p ?w JSONDecodeError ?ps "[]" ?s0] la tz
  have b: "TypeError \<in> set [AttributeError, KeyError, TypeError, ValueError]" by blast
  from l f r ok' a rz lz jz tz b show ?thesis by blast
qed


end
